theory Spec2Isabelle
  imports Main "HOL-Library.Sublist"
begin

section \<open>Texts and the string primitives the endpoints use\<close>

text \<open>
  A text is a \<^typ>\<open>string\<close>: a list of 8-bit characters, read as the code units
  \<open>0..255\<close> of a JavaScript string. Code units from 256 on are outside the model.
\<close>

definition isDigit :: "char \<Rightarrow> bool" where
  "isDigit c = (c \<in> set ''0123456789'')"

text \<open>The regular expression class \<open>\s\<close> and the white space of \<open>trim\<close>, below 256:
  TAB, LF, VT, FF, CR, SPACE and NBSP.\<close>

definition isSpace :: "char \<Rightarrow> bool" where
  "isSpace c = (c \<in> set [CHR 0x09, CHR 0x0A, CHR 0x0B, CHR 0x0C, CHR 0x0D, CHR '' '', CHR 0xA0])"

text \<open>The line terminators the class \<open>.\<close> excludes, below 256: LF and CR.\<close>

definition isLineTerminator :: "char \<Rightarrow> bool" where
  "isLineTerminator c = (c \<in> set [CHR 0x0A, CHR 0x0D])"

text \<open>
  \<open>String.prototype.toUpperCase\<close> below 256: \<open>a..z\<close> and the Latin-1 letters
  \<open>0xE0..0xFE\<close> (without the division sign \<open>0xF7\<close>) move down by 32, and the sharp s
  \<open>0xDF\<close> becomes \<open>SS\<close>. The micro sign \<open>0xB5\<close> and \<open>0xFF\<close> have upper-case forms
  from 256 on; they are left in place, which no test against an ASCII keyword can tell apart.
\<close>

definition toUpperChar :: "char \<Rightarrow> char" where
  "toUpperChar c =
     (let n = (of_char c :: nat) in
      if (97 \<le> n \<and> n \<le> 122) \<or> (224 \<le> n \<and> n \<le> 254 \<and> n \<noteq> 247)
      then char_of (n - 32) else c)"

definition toUpperCase :: "string \<Rightarrow> string" where
  "toUpperCase s = concat (map (\<lambda>c. if c = CHR 0xDF then ''SS'' else [toUpperChar c]) s)"

text \<open>\<open>s.includes(pat)\<close> (the name \<open>includes\<close> is taken): some suffix of \<open>s\<close> starts with \<open>pat\<close>.\<close>

fun includesStr :: "string \<Rightarrow> string \<Rightarrow> bool" where
  "includesStr [] pat = (pat = [])"
| "includesStr (c # cs) pat = (prefix pat (c # cs) \<or> includesStr cs pat)"

text \<open>\<open>s.indexOf(pat, from)\<close> for \<open>from \<le> s.length\<close>: the first index from \<open>from\<close> on
  where \<open>pat\<close> starts, or \<open>-1\<close>.\<close>

fun indexFrom :: "string \<Rightarrow> nat \<Rightarrow> string \<Rightarrow> int" where
  "indexFrom pat i [] = (if pat = [] then int i else -1)"
| "indexFrom pat i (c # cs) = (if prefix pat (c # cs) then int i else indexFrom pat (Suc i) cs)"

definition indexOf :: "string \<Rightarrow> string \<Rightarrow> nat \<Rightarrow> int" where
  "indexOf s pat from = indexFrom pat (min from (length s)) (drop from s)"

text \<open>\<open>s.substring(a, b)\<close>: both arguments are clamped to the length and swapped when
  \<open>a > b\<close>.\<close>

definition substring :: "string \<Rightarrow> nat \<Rightarrow> nat \<Rightarrow> string" where
  "substring s a b =
     (let a' = min a (length s); b' = min b (length s);
          lo = min a' b'; hi = max a' b'
      in take (hi - lo) (drop lo s))"

definition trim :: "string \<Rightarrow> string" where
  "trim s = rev (dropWhile isSpace (rev (dropWhile isSpace s)))"

text \<open>\<open>s.replace(/\s+/g, ' ')\<close>: every maximal run of white space becomes one space. The
  flag says that the previous character belonged to a run.\<close>

fun collapseWs :: "bool \<Rightarrow> string \<Rightarrow> string" where
  "collapseWs inRun [] = []"
| "collapseWs inRun (c # cs) =
     (if isSpace c then (if inRun then collapseWs True cs else CHR '' '' # collapseWs True cs)
      else c # collapseWs False cs)"

definition replaceSpaces :: "string \<Rightarrow> string" where
  "replaceSpaces s = collapseWs False s"

text \<open>\<open>s.replace(/\n/g, ' ')\<close>.\<close>

definition replaceNewlines :: "string \<Rightarrow> string" where
  "replaceNewlines s = map (\<lambda>c. if c = CHR 0x0A then CHR '' '' else c) s"

section \<open>Regular expressions with backtracking\<close>

text \<open>
  The constructs of the two patterns of the source: literal text, the greedy \<open>+\<close>, the lazy
  \<open>*?\<close> and the counted \<open>{n}\<close> over a character class, alternation, sequence and a
  capture group. Groups are neither nested nor repeated in the source.
\<close>

datatype cls = Digit | Space | Dot | AnyChar

fun inCls :: "cls \<Rightarrow> char \<Rightarrow> bool" where
  "inCls Digit c = isDigit c"
| "inCls Space c = isSpace c"
| "inCls Dot c = (\<not> isLineTerminator c)"
| "inCls AnyChar c = True"

datatype regex =
    Lit string
  | Plus cls
  | LazyStar cls
  | Rep nat cls
  | Alt regex regex
  | Seq regex regex
  | Group regex

text \<open>
  The matcher lists every way a pattern matches at the start of the text, as the rest of the
  text after the match, in the order in which a backtracking matcher tries them: the first
  element is the match the engine reports. The greedy \<open>+\<close> tries the longest run first, the
  lazy \<open>*?\<close> the shortest.
\<close>

fun greedyStar :: "cls \<Rightarrow> string \<Rightarrow> string list" where
  "greedyStar k [] = [[]]"
| "greedyStar k (c # cs) = (if inCls k c then greedyStar k cs @ [c # cs] else [c # cs])"

fun greedyPlus :: "cls \<Rightarrow> string \<Rightarrow> string list" where
  "greedyPlus k [] = []"
| "greedyPlus k (c # cs) = (if inCls k c then greedyStar k cs else [])"

fun lazyStar :: "cls \<Rightarrow> string \<Rightarrow> string list" where
  "lazyStar k [] = [[]]"
| "lazyStar k (c # cs) = (c # cs) # (if inCls k c then lazyStar k cs else [])"

text \<open>A result is the list of the captures closed so far, in order, and the rest of the
  text.\<close>

fun rmatch :: "regex \<Rightarrow> string \<Rightarrow> (string list \<times> string) list" where
  "rmatch (Lit l) s = (if prefix l s then [([], drop (length l) s)] else [])"
| "rmatch (Plus k) s = map (Pair []) (greedyPlus k s)"
| "rmatch (LazyStar k) s = map (Pair []) (lazyStar k s)"
| "rmatch (Rep n k) s =
     (if n \<le> length s \<and> list_all (inCls k) (take n s) then [([], drop n s)] else [])"
| "rmatch (Alt a b) s = rmatch a s @ rmatch b s"
| "rmatch (Seq a b) s =
     concat (map (\<lambda>(c1, s1). map (\<lambda>(c2, s2). (c1 @ c2, s2)) (rmatch b s1)) (rmatch a s))"
| "rmatch (Group a) s =
     map (\<lambda>(c, s1). (c @ [take (length s - length s1) s], s1)) (rmatch a s)"

text \<open>
  A match as \<open>RegExp.prototype.exec\<close> reports it: \<open>match.index\<close>, the captures
  \<open>match[1..]\<close>, and the text after the match (\<open>lastIndex\<close> is the length of the whole
  text minus the length of that rest).
\<close>

record rmatch_result =
  index :: nat
  groups :: "string list"
  rest :: string

text \<open>One \<open>exec\<close> on the text from \<open>lastIndex = i\<close> on: the pattern is tried at every
  position from there to the end of the text, the end included.\<close>

fun search :: "regex \<Rightarrow> nat \<Rightarrow> string \<Rightarrow> rmatch_result option" where
  "search re i s =
     (case rmatch re s of
        (caps, r) # _ \<Rightarrow> Some \<lparr>index = i, groups = caps, rest = r\<rparr>
      | [] \<Rightarrow> (case s of [] \<Rightarrow> None | _ # t \<Rightarrow> search re (Suc i) t))"

declare search.simps [simp del]

text \<open>
  The loop \<open>while ((match = re.exec(text)) !== null)\<close> of a pattern with the \<open>g\<close> flag,
  entered with \<open>lastIndex = i\<close>; \<open>s\<close> is the text from \<open>i\<close> on. It ends when \<open>exec\<close>
  finds nothing, which also resets \<open>lastIndex\<close> to 0 for the next loop over the same
  pattern. A match that consumes nothing would leave \<open>lastIndex\<close> where it is and the loop
  would never end: that is the value \<open>None\<close>.
\<close>

function execAll :: "regex \<Rightarrow> nat \<Rightarrow> string \<Rightarrow> rmatch_result list option" where
  "execAll re i s =
     (case search re i s of
        None \<Rightarrow> Some []
      | Some m \<Rightarrow>
          if length (rest m) < length s
          then map_option ((#) m) (execAll re (i + (length s - length (rest m))) (rest m))
          else None)"
  by pat_completeness auto
termination
  by (relation "measure (\<lambda>(re, i, s). length s)") auto

declare execAll.simps [simp del]

section \<open>The register entries and their deduplication\<close>

record entry =
  number :: string
  title :: string
  decided :: string
  category :: string

text \<open>\<open>xs.findIndex(p)\<close>: the first index whose element satisfies \<open>p\<close>, or \<open>-1\<close>.\<close>

fun findIndexFrom :: "('a \<Rightarrow> bool) \<Rightarrow> nat \<Rightarrow> 'a list \<Rightarrow> int" where
  "findIndexFrom p i [] = -1"
| "findIndexFrom p i (x # xs) = (if p x then int i else findIndexFrom p (Suc i) xs)"

definition findIndex :: "('a \<Rightarrow> bool) \<Rightarrow> 'a list \<Rightarrow> int" where
  "findIndex p xs = findIndexFrom p 0 xs"

text \<open>\<open>xs.filter((x, index, self) => ...)\<close>.\<close>

definition filterIndexed :: "('a \<Rightarrow> nat \<Rightarrow> 'a list \<Rightarrow> bool) \<Rightarrow> 'a list \<Rightarrow> 'a list" where
  "filterIndexed f xs = map snd (filter (\<lambda>(i, x). f x i xs) (enumerate 0 xs))"

definition uniqueEntries :: "entry list \<Rightarrow> entry list" where
  "uniqueEntries entries =
     filterIndexed
       (\<lambda>entry index self.
          int index = findIndex (\<lambda>e. number e = number entry \<and> title e = title entry) self)
       entries"

text \<open>The deduplication in the words of the specification: the entries whose
  (number, title) pair does not occur at an earlier index, in their order.\<close>

definition entryKey :: "entry \<Rightarrow> string \<times> string" where
  "entryKey e = (number e, title e)"

definition firstOccurrences :: "entry list \<Rightarrow> entry list" where
  "firstOccurrences xs =
     map (\<lambda>i. xs ! i)
       (filter (\<lambda>i. \<forall>j \<in> set [0..<i]. entryKey (xs ! j) \<noteq> entryKey (xs ! i)) [0..<length xs])"

section \<open>The HTML path\<close>

text \<open>\<open>/((?:MC|FF|MX)-\d+)\s+(.*?)\s+(\d{2}\/\d{2}\/\d{4})/g\<close>\<close>

definition datePattern :: regex where
  "datePattern =
     Seq (Rep 2 Digit) (Seq (Lit ''/'') (Seq (Rep 2 Digit) (Seq (Lit ''/'') (Rep 4 Digit))))"

definition pattern :: regex where
  "pattern =
     Seq (Group (Seq (Alt (Lit ''MC'') (Alt (Lit ''FF'') (Lit ''MX'')))
                     (Seq (Lit ''-'') (Plus Digit))))
      (Seq (Plus Space)
      (Seq (Group (LazyStar Dot))
      (Seq (Plus Space)
           (Group datePattern))))"

text \<open>The object \<open>categoryPatterns\<close>; \<open>Object.entries\<close> lists its string keys in the order
  in which they are written.\<close>

definition categoryPatterns :: "(string \<times> string) list" where
  "categoryPatterns =
     [(''NAME CHANGE'', ''NAME CHANGE''),
      (''CERTIFICATE, PERMIT, LICENSE'', ''CERTIFICATE, PERMIT, LICENSE''),
      (''CERTIFICATE OF REGISTRATION'', ''CERTIFICATE OF REGISTRATION''),
      (''DISMISSAL'', ''DISMISSAL''),
      (''WITHDRAWAL'', ''WITHDRAWAL''),
      (''REVOCATION'', ''REVOCATION''),
      (''TRANSFERS'', ''TRANSFERS''),
      (''GRANT DECISION NOTICES'', ''GRANT DECISION NOTICES'')]"

text \<open>The \<open>for ... of\<close> loop over the keywords: every keyword found in the window
  overwrites the category.\<close>

definition categoryLoop :: "(string \<times> string) list \<Rightarrow> string \<Rightarrow> string" where
  "categoryLoop pats beforeText =
     foldl (\<lambda>category (pat, cat). if includesStr beforeText pat then cat else category)
       ''MISCELLANEOUS'' pats"

definition beforeTextOf :: "string \<Rightarrow> nat \<Rightarrow> string" where
  "beforeTextOf rawText beforeIndex =
     toUpperCase (substring rawText (nat (max 0 (int beforeIndex - 500))) beforeIndex)"

text \<open>The body of the \<open>while\<close> loop: the entry pushed for one match.\<close>

definition htmlEntry :: "string \<Rightarrow> rmatch_result \<Rightarrow> entry" where
  "htmlEntry rawText m =
     \<lparr>number = groups m ! 0,
      title = replaceSpaces (trim (groups m ! 1)),
      decided = groups m ! 2,
      category = categoryLoop categoryPatterns (beforeTextOf rawText (index m))\<rparr>"

definition htmlEntries :: "string \<Rightarrow> entry list option" where
  "htmlEntries rawText = map_option (map (htmlEntry rawText)) (execAll pattern 0 rawText)"

definition htmlExtract :: "string \<Rightarrow> entry list option" where
  "htmlExtract rawText = map_option uniqueEntries (htmlEntries rawText)"

text \<open>
  The endpoint after the outbound request. \<open>response\<close> is what \<open>axios.post\<close> gave:
  a thrown error with its message, or the page. \<open>cheerioText\<close> stands for
  \<open>cheerio.load(data).text()\<close>, a library call, and \<open>lastUpdated\<close> for the clock. The
  result is the HTTP status with the JSON body, or \<open>None\<close> when the handler never answers.
\<close>

datatype fetched = Failed string | Fetched string

datatype envelope =
    Success nat string string "entry list"
  | Failure string "string option" "entry list"

definition registerAnswer ::
  "(string \<Rightarrow> string) \<Rightarrow> string \<Rightarrow> string \<Rightarrow> fetched \<Rightarrow> (nat \<times> envelope) option" where
  "registerAnswer cheerioText registerDate lastUpdated response =
     (case response of
        Failed message \<Rightarrow>
          Some (500, Failure ''Failed to scrape FMCSA register data'' (Some message) [])
      | Fetched data \<Rightarrow>
          if \<not> includesStr (toUpperCase data) ''FMCSA REGISTER''
          then Some (400, Failure ''Invalid response from FMCSA'' None [])
          else map_option
                 (\<lambda>uniqueEntries.
                    (200, Success (length uniqueEntries) registerDate lastUpdated uniqueEntries))
                 (htmlExtract (cheerioText data)))"

section \<open>The PDF path\<close>

record sec =
  name :: string
  header :: string

definition sections :: "sec list" where
  "sections =
     [\<lparr>name = ''NAME CHANGE'', header = ''NAME CHANGES''\<rparr>,
      \<lparr>name = ''CERTIFICATE, PERMIT, LICENSE'', header = ''CERTIFICATES, PERMITS & LICENSES''\<rparr>,
      \<lparr>name = ''CERTIFICATE OF REGISTRATION'', header = ''CERTIFICATES OF REGISTRATION''\<rparr>,
      \<lparr>name = ''DISMISSAL'', header = ''DISMISSALS''\<rparr>,
      \<lparr>name = ''WITHDRAWAL'', header = ''WITHDRAWAL OF APPLICATION''\<rparr>,
      \<lparr>name = ''REVOCATION'', header = ''REVOCATIONS''\<rparr>,
      \<lparr>name = ''TRANSFERS'', header = ''TRANSFERS''\<rparr>,
      \<lparr>name = ''GRANT DECISION NOTICES'', header = ''GRANT DECISION NOTICES''\<rparr>]"

text \<open>\<open>/((?:MC|FF|MX|MX-MC)-\d+)\s+([\s\S]*?)\s+(\d{2}\/\d{2}\/\d{4})/g\<close>\<close>

definition recordPattern :: regex where
  "recordPattern =
     Seq (Group (Seq (Alt (Lit ''MC'') (Alt (Lit ''FF'') (Alt (Lit ''MX'') (Lit ''MX-MC''))))
                     (Seq (Lit ''-'') (Plus Digit))))
      (Seq (Plus Space)
      (Seq (Group (LazyStar AnyChar))
      (Seq (Plus Space)
           (Group datePattern))))"

definition pdfTitle :: "string \<Rightarrow> string" where
  "pdfTitle g = trim (replaceSpaces (replaceNewlines g))"

text \<open>The body of the inner \<open>while\<close> loop: what one match pushes.\<close>

definition sectionPush :: "sec \<Rightarrow> rmatch_result \<Rightarrow> entry list" where
  "sectionPush currentSection m =
     (let docket = groups m ! 0;
          title = pdfTitle (groups m ! 1);
          decidedDate = groups m ! 2
      in if length title > 0 \<and> length title < 500
         then [\<lparr>number = docket, title = title, decided = decidedDate,
                category = name currentSection\<rparr>]
         else [])"

text \<open>The text of a section: from the first occurrence of its header to the first
  occurrence from there on of the header of the next section of the table, or to the end.\<close>

definition sectionText :: "string \<Rightarrow> sec \<Rightarrow> sec list \<Rightarrow> nat \<Rightarrow> string" where
  "sectionText fullText currentSection following startIdx =
     (let endIdx = (case following of
                      [] \<Rightarrow> int (length fullText)
                    | nextSection # _ \<Rightarrow> indexOf fullText (header nextSection) startIdx)
      in substring fullText startIdx (if endIdx = -1 then length fullText else nat endIdx))"

text \<open>The \<open>for\<close> loop over the table, from the section \<open>currentSection\<close> on. Every inner
  loop starts with \<open>lastIndex = 0\<close>: the pattern is created in the request and each loop
  over it ends with a failed \<open>exec\<close>.\<close>

fun sectionLoop :: "sec list \<Rightarrow> string \<Rightarrow> entry list option" where
  "sectionLoop [] fullText = Some []"
| "sectionLoop (currentSection # following) fullText =
     (let startIdx = indexOf fullText (header currentSection) 0 in
      if startIdx = -1 then sectionLoop following fullText
      else
        (case execAll recordPattern 0
                (sectionText fullText currentSection following (nat startIdx)) of
           None \<Rightarrow> None
         | Some ms \<Rightarrow>
             map_option ((@) (concat (map (sectionPush currentSection) ms)))
               (sectionLoop following fullText)))"

text \<open>The endpoint of \<open>api/fmcsa-register.ts\<close>.\<close>

definition pdfEntries :: "string \<Rightarrow> entry list option" where
  "pdfEntries fullText = sectionLoop sections fullText"

definition pdfExtract :: "string \<Rightarrow> entry list option" where
  "pdfExtract fullText = map_option uniqueEntries (pdfEntries fullText)"

text \<open>The server variant adds a second pass over the whole text when the section loop
  pushed nothing.\<close>

definition fallbackEntry :: "rmatch_result \<Rightarrow> entry" where
  "fallbackEntry m =
     \<lparr>number = groups m ! 0, title = pdfTitle (groups m ! 1), decided = groups m ! 2,
      category = ''MISCELLANEOUS''\<rparr>"

text \<open>\<open>fallbackTaken\<close> is the guard \<open>entries.length === 0\<close> after the section loop.\<close>

definition fallbackTaken :: "string \<Rightarrow> bool option" where
  "fallbackTaken fullText = map_option (\<lambda>entries. length entries = 0) (sectionLoop sections fullText)"

definition pdfEntriesFallback :: "string \<Rightarrow> entry list option" where
  "pdfEntriesFallback fullText =
     (case sectionLoop sections fullText of
        None \<Rightarrow> None
      | Some entries \<Rightarrow>
          if length entries = 0
          then map_option (map fallbackEntry) (execAll recordPattern 0 fullText)
          else Some entries)"

definition pdfExtractFallback :: "string \<Rightarrow> entry list option" where
  "pdfExtractFallback fullText = map_option uniqueEntries (pdfEntriesFallback fullText)"

section \<open>The date converters\<close>

definition formatDateForPDF :: "string \<Rightarrow> string" where
  "formatDateForPDF dateStr = filter (\<lambda>c. c \<noteq> CHR ''-'') dateStr"

text \<open>What a valid \<open>Date\<close> answers to \<open>getDate\<close>, \<open>getMonth\<close> (from 0) and
  \<open>getFullYear\<close>.\<close>

record jsDate =
  getDate :: nat
  getMonth :: nat
  getFullYear :: int

text \<open>\<open>String(n)\<close> of an integer.\<close>

fun natToString :: "nat \<Rightarrow> string" where
  "natToString n =
     (if n < 10 then [''0123456789'' ! n]
      else natToString (n div 10) @ [''0123456789'' ! (n mod 10)])"

declare natToString.simps [simp del]

definition intToString :: "int \<Rightarrow> string" where
  "intToString i = (if i < 0 then CHR ''-'' # natToString (nat (- i)) else natToString (nat i))"

definition padStart :: "nat \<Rightarrow> char \<Rightarrow> string \<Rightarrow> string" where
  "padStart n c s = replicate (n - length s) c @ s"

text \<open>\<open>s.slice(-n)\<close>.\<close>

definition sliceLast :: "nat \<Rightarrow> string \<Rightarrow> string" where
  "sliceLast n s = drop (length s - n) s"

definition months :: "string list" where
  "months = [''JAN'', ''FEB'', ''MAR'', ''APR'', ''MAY'', ''JUN'',
             ''JUL'', ''AUG'', ''SEP'', ''OCT'', ''NOV'', ''DEC'']"

text \<open>An index outside the array reads \<open>undefined\<close>, which the template prints.\<close>

definition formatDateForFMCSA :: "jsDate \<Rightarrow> string" where
  "formatDateForFMCSA date =
     (let day = padStart 2 (CHR ''0'') (natToString (getDate date));
          month = (if getMonth date < length months then months ! getMonth date
                   else ''undefined'');
          year = sliceLast 2 (intToString (getFullYear date))
      in day @ ''-'' @ month @ ''-'' @ year)"

section \<open>Notions used to state the properties\<close>

text \<open>The least number of characters a match of a pattern consumes. A pattern that always
  consumes a character makes the \<open>exec\<close> loop end.\<close>

fun minLen :: "regex \<Rightarrow> nat" where
  "minLen (Lit l) = length l"
| "minLen (Plus k) = 1"
| "minLen (LazyStar k) = 0"
| "minLen (Rep n k) = n"
| "minLen (Alt a b) = min (minLen a) (minLen b)"
| "minLen (Seq a b) = minLen a + minLen b"
| "minLen (Group a) = minLen a"

text \<open>The docket parts of the two patterns, by name.\<close>

definition htmlDocket :: regex where
  "htmlDocket = Seq (Alt (Lit ''MC'') (Alt (Lit ''FF'') (Lit ''MX''))) (Seq (Lit ''-'') (Plus Digit))"

definition pdfDocket :: regex where
  "pdfDocket = Seq (Alt (Lit ''MC'') (Alt (Lit ''FF'') (Alt (Lit ''MX'') (Lit ''MX-MC''))))
                   (Seq (Lit ''-'') (Plus Digit))"

text \<open>
  A well-formed triple, as the specification speaks of it: a docket that is one of the
  prefixes, a dash and at least one digit; a date \<open>dd/dd/dddd\<close>; and a title. The title
  has to be one the pattern can delimit: it is not empty, neither starts nor ends with white
  space, consists of characters of the class the pattern allows in a title, and nowhere in
  it stand two digits and a slash, the start of a date.
\<close>

definition isDocket :: "string list \<Rightarrow> string \<Rightarrow> bool" where
  "isDocket ps dk =
     (\<exists>p \<in> set ps. prefix (p @ ''-'') dk \<and> drop (length p + 1) dk \<noteq> []
        \<and> list_all isDigit (drop (length p + 1) dk))"

definition isDate :: "string \<Rightarrow> bool" where
  "isDate d =
     (length d = 10 \<and> list_all isDigit (take 2 d) \<and> d ! 2 = CHR ''/''
      \<and> list_all isDigit (take 2 (drop 3 d)) \<and> d ! 5 = CHR ''/''
      \<and> list_all isDigit (drop 6 d))"

fun startsDate :: "string \<Rightarrow> bool" where
  "startsDate (a # b # c # _) = (isDigit a \<and> isDigit b \<and> c = CHR ''/'')"
| "startsDate _ = False"

definition titleOk :: "cls \<Rightarrow> string \<Rightarrow> bool" where
  "titleOk k t =
     (t \<noteq> [] \<and> \<not> isSpace (hd t) \<and> \<not> isSpace (last t) \<and> list_all (inCls k) t
      \<and> list_all (\<lambda>u. \<not> startsDate u) (suffixes t))"

type_synonym triple = "string \<times> string \<times> string"

definition wellFormedTriple :: "string list \<Rightarrow> cls \<Rightarrow> triple \<Rightarrow> bool" where
  "wellFormedTriple ps k tr =
     (case tr of (dk, t, d) \<Rightarrow> isDocket ps dk \<and> titleOk k t \<and> isDate d)"

definition htmlPrefixes :: "string list" where
  "htmlPrefixes = [''MC'', ''FF'', ''MX'']"

definition pdfPrefixes :: "string list" where
  "pdfPrefixes = [''MC'', ''FF'', ''MX'', ''MX-MC'']"

text \<open>A text that contains the triples and nothing else: docket, space, title, space, date
  for each triple, and the character \<open>sep\<close> between two triples.\<close>

fun render :: "triple \<Rightarrow> string" where
  "render (dk, t, d) = dk @ '' '' @ t @ '' '' @ d"

fun layout :: "char \<Rightarrow> triple list \<Rightarrow> string" where
  "layout sep [] = []"
| "layout sep [x] = render x"
| "layout sep (x # y # ys) = render x @ sep # layout sep (y # ys)"

section \<open>Deduplication keeps first occurrences\<close>

lemma findIndexFrom_range: "findIndexFrom p k xs = -1 \<or> int k \<le> findIndexFrom p k xs"
proof (induction xs arbitrary: k)
  case Nil
  show ?case by simp
next
  case (Cons a xs)
  from Cons.IH [of "Suc k"] show ?case by auto
qed

lemma findIndexFrom_first:
  "findIndexFrom p k (pre @ x # xs) = int (k + length pre)
     \<longleftrightarrow> (\<forall>y \<in> set pre. \<not> p y) \<and> p x"
proof (induction pre arbitrary: k)
  case Nil
  from findIndexFrom_range [of p "Suc k" xs] show ?case by auto
next
  case (Cons a pre)
  from Cons.IH [of "Suc k"] show ?case by auto
qed

lemma enumerate_nth: "enumerate 0 xs = map (\<lambda>i. (i, xs ! i)) [0..<length xs]"
proof -
  have "enumerate 0 (map (nth xs) [0..<length xs]) = map (\<lambda>i. (i, xs ! i)) [0..<length xs]"
    by (rule enumerate_map_upt)
  then show ?thesis by (simp add: map_nth)
qed

lemma first_index_iff:
  assumes "i < length xs"
  shows "int i = findIndex (\<lambda>e. number e = number (xs ! i) \<and> title e = title (xs ! i)) xs
         \<longleftrightarrow> (\<forall>j \<in> set [0..<i]. entryKey (xs ! j) \<noteq> entryKey (xs ! i))"
proof -
  let ?p = "\<lambda>e. number e = number (xs ! i) \<and> title e = title (xs ! i)"
  have split: "xs = take i xs @ xs ! i # drop (Suc i) xs"
    using assms by (rule id_take_nth_drop)
  have len: "length (take i xs) = i" using assms by simp
  have "findIndexFrom ?p 0 (take i xs @ xs ! i # drop (Suc i) xs) = int (0 + length (take i xs))
        \<longleftrightarrow> (\<forall>y \<in> set (take i xs). \<not> ?p y) \<and> ?p (xs ! i)"
    by (rule findIndexFrom_first)
  with split len have "findIndexFrom ?p 0 xs = int i \<longleftrightarrow> (\<forall>y \<in> set (take i xs). \<not> ?p y)"
    by simp
  moreover have "(\<forall>y \<in> set (take i xs). \<not> ?p y)
                 \<longleftrightarrow> (\<forall>j \<in> set [0..<i]. entryKey (xs ! j) \<noteq> entryKey (xs ! i))"
    using len by (auto simp: all_set_conv_all_nth entryKey_def)
  ultimately show ?thesis by (auto simp: findIndex_def)
qed

lemma uniqueEntries_eq: "uniqueEntries xs = firstOccurrences xs"
proof -
  have "filter (\<lambda>i. int i = findIndex (\<lambda>e. number e = number (xs ! i) \<and> title e = title (xs ! i)) xs)
          [0..<length xs]
      = filter (\<lambda>i. \<forall>j \<in> set [0..<i]. entryKey (xs ! j) \<noteq> entryKey (xs ! i)) [0..<length xs]"
    by (rule filter_cong) (simp_all add: first_index_iff)
  then show ?thesis
    by (simp add: uniqueEntries_def filterIndexed_def firstOccurrences_def enumerate_nth
        filter_map comp_def)
qed

lemma firstOccurrences_distinct: "distinct (map entryKey (firstOccurrences xs))"
proof -
  let ?P = "\<lambda>i. \<forall>j \<in> set [0..<i]. entryKey (xs ! j) \<noteq> entryKey (xs ! i)"
  have "inj_on (\<lambda>i. entryKey (xs ! i)) (set (filter ?P [0..<length xs]))"
  proof (rule inj_onI)
    fix i j
    assume i: "i \<in> set (filter ?P [0..<length xs])" and j: "j \<in> set (filter ?P [0..<length xs])"
      and eq: "entryKey (xs ! i) = entryKey (xs ! j)"
    show "i = j"
    proof (cases i j rule: linorder_cases)
      case less with j eq show ?thesis by auto
    next
      case greater with i eq show ?thesis by auto
    qed simp
  qed
  then show ?thesis
    by (simp add: firstOccurrences_def distinct_map comp_def)
qed

lemma firstOccurrences_of_distinct:
  assumes "distinct (map entryKey ys)"
  shows "firstOccurrences ys = ys"
proof -
  have "filter (\<lambda>i. \<forall>j \<in> set [0..<i]. entryKey (ys ! j) \<noteq> entryKey (ys ! i)) [0..<length ys]
          = [0..<length ys]"
  proof -
    have "\<And>i j. i < length ys \<Longrightarrow> j < i \<Longrightarrow> entryKey (ys ! j) \<noteq> entryKey (ys ! i)"
    proof
      fix i j assume "i < length ys" "j < i" "entryKey (ys ! j) = entryKey (ys ! i)"
      then have "map entryKey ys ! j = map entryKey ys ! i" by simp
      moreover have "j < length (map entryKey ys)" "i < length (map entryKey ys)"
        using \<open>i < length ys\<close> \<open>j < i\<close> by simp_all
      ultimately have "j = i" using assms by (simp only: nth_eq_iff_index_eq)
      with \<open>j < i\<close> show False by simp
    qed
    then show ?thesis by (auto simp: filter_id_conv)
  qed
  then show ?thesis by (simp add: firstOccurrences_def map_nth)
qed

lemma uniqueEntries_of_distinct:
  "distinct (map entryKey ys) \<Longrightarrow> uniqueEntries ys = ys"
  by (simp add: uniqueEntries_eq firstOccurrences_of_distinct)

text \<open>
  C6. Deduplication returns the entries whose (number, title) pair does not occur at an
  earlier index of the input, in their original order; pairs are compared by equality of
  the two strings.
\<close>

theorem dedup_keeps_first_occurrences: "uniqueEntries xs = firstOccurrences xs"
  by (rule uniqueEntries_eq)

theorem dedup_keeps_first_occurrences_witness:
  "uniqueEntries
     [\<lparr>number = ''MC-1'', title = ''A'', decided = ''01/02/2024'', category = ''DISMISSAL''\<rparr>,
      \<lparr>number = ''MC-2'', title = ''A'', decided = ''01/02/2024'', category = ''DISMISSAL''\<rparr>,
      \<lparr>number = ''MC-1'', title = ''A'', decided = ''01/03/2024'', category = ''TRANSFERS''\<rparr>,
      \<lparr>number = ''MC-1'', title = ''a'', decided = ''01/02/2024'', category = ''DISMISSAL''\<rparr>]
   = [\<lparr>number = ''MC-1'', title = ''A'', decided = ''01/02/2024'', category = ''DISMISSAL''\<rparr>,
      \<lparr>number = ''MC-2'', title = ''A'', decided = ''01/02/2024'', category = ''DISMISSAL''\<rparr>,
      \<lparr>number = ''MC-1'', title = ''a'', decided = ''01/02/2024'', category = ''DISMISSAL''\<rparr>]"
  by (subst dedup_keeps_first_occurrences) code_simp

text \<open>
  C7. Deduplication is idempotent: deduplicating a deduplicated sequence changes nothing.
\<close>

theorem dedup_idempotent: "uniqueEntries (uniqueEntries xs) = uniqueEntries xs"
  by (simp add: uniqueEntries_eq firstOccurrences_of_distinct firstOccurrences_distinct)

section \<open>The category of an entry of the HTML path\<close>

lemma categoryLoop_last:
  "categoryLoop pats w =
     (let found = filter (\<lambda>(pat, cat). includesStr w pat) pats
      in if found = [] then ''MISCELLANEOUS'' else snd (last found))"
  by (induction pats rule: rev_induct) (simp_all add: categoryLoop_def Let_def split: prod.splits)

lemma substring_window:
  "substring s (nat (max 0 (int i - 500))) i = drop (i - 500) (take i s)"
proof -
  have a: "nat (max 0 (int i - 500)) = i - 500" by simp
  show ?thesis
    unfolding a substring_def Let_def
    by (cases "i \<le> length s") (auto simp: min_def max_def drop_take take_all)
qed

lemma last_filter_later:
  assumes "j < length xs" and "P (xs ! j)"
  shows "\<exists>k. j \<le> k \<and> k < length xs \<and> filter P xs \<noteq> [] \<and> last (filter P xs) = xs ! k"
  using assms
proof (induction xs rule: rev_induct)
  case Nil
  then show ?case by simp
next
  case (snoc y ys)
  show ?case
  proof (cases "P y")
    case True
    with snoc.prems(1) have "j \<le> length ys \<and> length ys < length (ys @ [y])
        \<and> filter P (ys @ [y]) \<noteq> [] \<and> last (filter P (ys @ [y])) = (ys @ [y]) ! length ys"
      by simp
    then show ?thesis by blast
  next
    case False
    with snoc.prems have j: "j < length ys"
      by (cases "j = length ys") auto
    with snoc.prems(2) have "P (ys ! j)" by (simp add: nth_append)
    from snoc.IH [OF j this] obtain k where
      k: "j \<le> k" "k < length ys" "filter P ys \<noteq> []" "last (filter P ys) = ys ! k" by blast
    with False have "j \<le> k \<and> k < length (ys @ [y]) \<and> filter P (ys @ [y]) \<noteq> []
        \<and> last (filter P (ys @ [y])) = (ys @ [y]) ! k"
      by (simp add: nth_append)
    then show ?thesis by blast
  qed
qed

lemma categories_distinct: "distinct (map snd categoryPatterns)"
  by (simp add: categoryPatterns_def)

text \<open>
  C1. The category of an entry of the HTML path is read off the upper-cased text of the
  (at most) 500 characters before the match: it is the category of the last keyword of the
  fixed list, in the order of the list, that occurs in that window, and MISCELLANEOUS when
  none occurs. So a keyword never wins when a keyword later in the list occurs in the
  window too, wherever in the window the two stand.
\<close>

theorem html_category_last_keyword:
  "category (htmlEntry rawText m) =
     (let beforeText = toUpperCase (drop (index m - 500) (take (index m) rawText));
          found = filter (\<lambda>(pat, cat). includesStr beforeText pat) categoryPatterns
      in if found = [] then ''MISCELLANEOUS'' else snd (last found))
   \<and> (\<forall>i j. i < j \<and> j < length categoryPatterns
          \<and> includesStr (toUpperCase (drop (index m - 500) (take (index m) rawText)))
               (fst (categoryPatterns ! j))
        \<longrightarrow> category (htmlEntry rawText m) \<noteq> snd (categoryPatterns ! i))"
proof -
  let ?w = "toUpperCase (drop (index m - 500) (take (index m) rawText))"
  let ?P = "\<lambda>(pat, cat). includesStr ?w pat"
  let ?found = "filter ?P categoryPatterns"
  have cat: "category (htmlEntry rawText m)
               = (if ?found = [] then ''MISCELLANEOUS'' else snd (last ?found))"
    by (simp add: htmlEntry_def beforeTextOf_def substring_window categoryLoop_last)
  have later: "category (htmlEntry rawText m) \<noteq> snd (categoryPatterns ! i)"
    if "i < j" "j < length categoryPatterns" "includesStr ?w (fst (categoryPatterns ! j))" for i j
  proof -
    from that(3) have "?P (categoryPatterns ! j)" by (simp add: case_prod_beta)
    from last_filter_later [of j categoryPatterns ?P, OF that(2) this] obtain k where
      k: "j \<le> k" "k < length categoryPatterns" "?found \<noteq> []"
         "last ?found = categoryPatterns ! k" by blast
    from k cat have c: "category (htmlEntry rawText m) = snd (categoryPatterns ! k)" by simp
    from that(1) k(1,2) have ik: "i \<noteq> k" "i < length (map snd categoryPatterns)"
      "k < length (map snd categoryPatterns)" by simp_all
    from nth_eq_iff_index_eq [OF categories_distinct ik(3) ik(2)] ik(1)
    have "map snd categoryPatterns ! k \<noteq> map snd categoryPatterns ! i" by simp
    with ik(2,3) have "snd (categoryPatterns ! k) \<noteq> snd (categoryPatterns ! i)" by simp
    with c show ?thesis by simp
  qed
  show ?thesis
  proof (intro conjI allI impI)
    show "category (htmlEntry rawText m) =
       (let beforeText = ?w;
            found = filter (\<lambda>(pat, cat). includesStr beforeText pat) categoryPatterns
        in if found = [] then ''MISCELLANEOUS'' else snd (last found))"
      unfolding Let_def by (rule cat)
  next
    fix i j
    assume "i < j \<and> j < length categoryPatterns \<and> includesStr ?w (fst (categoryPatterns ! j))"
    then show "category (htmlEntry rawText m) \<noteq> snd (categoryPatterns ! i)"
      using later [of i j] by blast
  qed
qed

text \<open>In the example NAME CHANGE, first in the list, stands right before the match and
  REVOCATION, sixth in the list, further away: the category is REVOCATION.\<close>

theorem html_category_last_keyword_witness:
  "search pattern 0 ''REVOCATION NAME CHANGE MC-100000 Smith 01/02/2024''
     = Some \<lparr>index = 23, groups = [''MC-100000'', ''Smith'', ''01/02/2024''], rest = []\<rparr>
   \<and> categoryPatterns ! 0 = (''NAME CHANGE'', ''NAME CHANGE'')
   \<and> categoryPatterns ! 5 = (''REVOCATION'', ''REVOCATION'')
   \<and> toUpperCase (drop (23 - 500) (take 23 ''REVOCATION NAME CHANGE MC-100000 Smith 01/02/2024''))
       = ''REVOCATION NAME CHANGE ''
   \<and> category (htmlEntry ''REVOCATION NAME CHANGE MC-100000 Smith 01/02/2024''
        \<lparr>index = 23, groups = [''MC-100000'', ''Smith'', ''01/02/2024''], rest = []\<rparr>)
     = ''REVOCATION''
   \<and> category (htmlEntry ''REVOCATION NAME CHANGE MC-100000 Smith 01/02/2024''
        \<lparr>index = 23, groups = [''MC-100000'', ''Smith'', ''01/02/2024''], rest = []\<rparr>)
     \<noteq> ''NAME CHANGE''"
proof -
  let ?T = "''REVOCATION NAME CHANGE MC-100000 Smith 01/02/2024''"
  let ?m = "\<lparr>index = 23, groups = [''MC-100000'', ''Smith'', ''01/02/2024''], rest = []\<rparr>"
  note th = html_category_last_keyword [of ?T ?m]
  have s: "search pattern 0 ?T = Some ?m" by code_simp
  have p0: "categoryPatterns ! 0 = (''NAME CHANGE'', ''NAME CHANGE'')" by code_simp
  have p5: "categoryPatterns ! 5 = (''REVOCATION'', ''REVOCATION'')" by code_simp
  have w: "toUpperCase (drop (23 - 500) (take 23 ?T)) = ''REVOCATION NAME CHANGE ''" by code_simp
  have len: "(0::nat) < 5 \<and> 5 < length categoryPatterns" by code_simp
  have inc: "includesStr ''REVOCATION NAME CHANGE '' ''REVOCATION''" by code_simp
  have f: "filter (\<lambda>(pat, cat). includesStr ''REVOCATION NAME CHANGE '' pat) categoryPatterns
             = [(''NAME CHANGE'', ''NAME CHANGE''), (''REVOCATION'', ''REVOCATION'')]" by code_simp
  from th [THEN conjunct1] w f have a: "category (htmlEntry ?T ?m) = ''REVOCATION''"
    by (simp add: Let_def)
  from th [THEN conjunct2, rule_format, of 0 5] len inc w p0 p5
  have b: "category (htmlEntry ?T ?m) \<noteq> ''NAME CHANGE''" by simp
  from s p0 p5 w a b show ?thesis by blast
qed

section \<open>The answer to a page without the marker\<close>

text \<open>
  C8. When the upper-cased page does not contain FMCSA REGISTER, the HTML endpoint answers
  with status 400 and the body \<open>{success: false, error: 'Invalid response from FMCSA',
  entries: []}\<close>, whatever the text extraction would have made of the page.
\<close>

theorem marker_absent_400:
  assumes "\<not> includesStr (toUpperCase data) ''FMCSA REGISTER''"
  shows "registerAnswer cheerioText registerDate lastUpdated (Fetched data)
           = Some (400, Failure ''Invalid response from FMCSA'' None [])"
  using assms by (simp add: registerAnswer_def)

theorem marker_absent_400_witness:
  "\<not> includesStr (toUpperCase ''<html>Service unavailable</html>'') ''FMCSA REGISTER''
   \<and> registerAnswer (\<lambda>d. d) ''20-FEB-24'' ''2024-02-20T00:00:00.000Z''
        (Fetched ''<html>Service unavailable</html>'')
       = Some (400, Failure ''Invalid response from FMCSA'' None [])"
proof -
  have h: "\<not> includesStr (toUpperCase ''<html>Service unavailable</html>'') ''FMCSA REGISTER''"
    by code_simp
  from marker_absent_400 [OF h] h show ?thesis by simp
qed

section \<open>The date converters on 20 February 2024\<close>

text \<open>
  C9. \<open>formatDateForPDF\<close> turns 2024-02-20 into 20240220, and \<open>formatDateForFMCSA\<close> turns
  the date 20 February 2024 (month index 1) into 20-FEB-24.
\<close>

theorem date_converters:
  "formatDateForPDF ''2024-02-20'' = ''20240220''
   \<and> formatDateForFMCSA \<lparr>getDate = 20, getMonth = 1, getFullYear = 2024\<rparr> = ''20-FEB-24''"
  by code_simp

section \<open>Facts about the matcher\<close>

lemma greedyStar_length: "x \<in> set (greedyStar k s) \<Longrightarrow> length x \<le> length s"
  by (induction s) (auto split: if_splits)

lemma greedyPlus_length: "x \<in> set (greedyPlus k s) \<Longrightarrow> length x + 1 \<le> length s"
  by (cases s) (auto split: if_splits dest: greedyStar_length)

lemma lazyStar_length: "x \<in> set (lazyStar k s) \<Longrightarrow> length x \<le> length s"
  by (induction s) (auto split: if_splits)

lemma rmatch_length:
  "(c, r) \<in> set (rmatch re s) \<Longrightarrow> length r + minLen re \<le> length s"
proof (induction re arbitrary: c r s)
  case (Lit l)
  then show ?case by (auto split: if_splits simp: prefix_def)
next
  case (Plus k)
  then show ?case by (auto dest: greedyPlus_length)
next
  case (LazyStar k)
  then show ?case by (auto dest: lazyStar_length)
next
  case (Rep n k)
  then show ?case by (auto split: if_splits)
next
  case (Alt a b)
  then show ?case by fastforce
next
  case (Seq a b)
  from Seq.prems obtain c1 s1 c2 where
    a: "(c1, s1) \<in> set (rmatch a s)" and b: "(c2, r) \<in> set (rmatch b s1)"
    by auto
  from Seq.IH(1) [OF a] Seq.IH(2) [OF b] show ?case by simp
next
  case (Group a)
  then show ?case by fastforce
qed

lemma search_Some:
  "search re i s = Some m \<Longrightarrow>
     \<exists>k zs. k \<le> length s \<and> index m = i + k \<and> rmatch re (drop k s) = (groups m, rest m) # zs"
proof (induction re i s rule: search.induct)
  case (1 re i s)
  show ?case
  proof (cases "rmatch re s")
    case Nil
    with "1.prems" obtain a t where s: "s = a # t" and st: "search re (Suc i) t = Some m"
      by (auto simp: search.simps [of re i s] split: list.splits)
    from "1.IH" [OF Nil s st] obtain k zs where
      "k \<le> length t" "index m = Suc i + k" "rmatch re (drop k t) = (groups m, rest m) # zs"
      by blast
    with s have "Suc k \<le> length s \<and> index m = i + Suc k
                 \<and> rmatch re (drop (Suc k) s) = (groups m, rest m) # zs"
      by simp
    then show ?thesis by blast
  next
    case (Cons x zs)
    with "1.prems" have "m = \<lparr>index = i, groups = fst x, rest = snd x\<rparr>"
      by (auto simp: search.simps [of re i s] split: prod.splits)
    with Cons have "0 \<le> length s \<and> index m = i + 0 \<and> rmatch re (drop 0 s) = (groups m, rest m) # zs"
      by simp
    then show ?thesis by blast
  qed
qed

lemma search_rest_shorter:
  assumes "search re i s = Some m" and "0 < minLen re"
  shows "length (rest m) < length s"
proof -
  from search_Some [OF assms(1)] obtain k zs where
    k: "k \<le> length s" and r: "rmatch re (drop k s) = (groups m, rest m) # zs"
    by blast
  from r have "(groups m, rest m) \<in> set (rmatch re (drop k s))" by simp
  from rmatch_length [OF this] assms(2) k show ?thesis by simp
qed

lemma execAll_unfold:
  assumes "0 < minLen re"
  shows "execAll re i s =
     (case search re i s of
        None \<Rightarrow> Some []
      | Some m \<Rightarrow> map_option ((#) m) (execAll re (i + (length s - length (rest m))) (rest m)))"
  using search_rest_shorter [OF _ assms, of i s]
  by (auto simp: execAll.simps [of re i s] split: option.splits)

lemma execAll_total:
  assumes "0 < minLen re"
  shows "\<exists>ms. execAll re i s = Some ms"
proof (induction s arbitrary: i rule: length_induct)
  case (1 s)
  show ?case
  proof (cases "search re i s")
    case None
    then show ?thesis by (simp add: execAll_unfold [OF assms])
  next
    case (Some m)
    from search_rest_shorter [OF Some assms] "1.IH"
    obtain ms where "execAll re (i + (length s - length (rest m))) (rest m) = Some ms"
      by blast
    with Some show ?thesis by (simp add: execAll_unfold [OF assms])
  qed
qed

lemma minLen_pattern: "0 < minLen pattern"
  by (simp add: pattern_def)

lemma minLen_recordPattern: "0 < minLen recordPattern"
  by (simp add: recordPattern_def)

lemma digit_not_space: "isDigit c \<Longrightarrow> \<not> isSpace c"
  by (auto simp: isDigit_def isSpace_def)

lemma length10:
  assumes "length d = 10"
  obtains a b c e f g h i j k where "d = [a, b, c, e, f, g, h, i, j, k]"
proof -
  from assms have "\<exists>a b c e f g h i j k. d = [a, b, c, e, f, g, h, i, j, k]"
    by (simp add: numeral_eq_Suc length_Suc_conv) blast
  then show ?thesis using that by blast
qed

lemma rmatch_date:
  assumes "isDate d"
  shows "rmatch datePattern (d @ r) = [([], r)]"
proof -
  from assms have "length d = 10" by (simp add: isDate_def)
  then obtain a b c e f g h i j k where d: "d = [a, b, c, e, f, g, h, i, j, k]"
    by (rule length10)
  from assms show ?thesis
    unfolding d by (simp add: isDate_def datePattern_def numeral_eq_Suc)
qed

lemma isDate_hd: "isDate d \<Longrightarrow> \<exists>a d'. d = a # d' \<and> isDigit a"
  by (cases d) (auto simp: isDate_def numeral_eq_Suc)

lemma rmatch_date_group:
  assumes "isDate d"
  shows "rmatch (Group datePattern) (d @ r) = [([d], r)]"
  using rmatch_date [OF assms, of r] by simp

lemma rmatch_space_date:
  assumes "isDate d" and "isSpace w"
  shows "rmatch (Seq (Plus Space) (Group datePattern)) (w # d @ r) = [([d], r)]"
proof -
  from isDate_hd [OF assms(1)] obtain a d' where d: "d = a # d'" and a: "isDigit a" by blast
  have "greedyPlus Space (w # d @ r) = [d @ r]"
    using assms(2) a by (simp add: d digit_not_space)
  with rmatch_date_group [OF assms(1), of r] show ?thesis by simp
qed

lemma short_or_long:
  fixes s :: string
  obtains (nil) "s = []" | (one) a where "s = [a]" | (two) a b where "s = [a, b]"
    | (more) a b c s' where "s = a # b # c # s'"
  by (cases s rule: startsDate.cases) auto

lemma rmatch_date_startsDate:
  assumes a: "rmatch datePattern s \<noteq> []"
  shows "startsDate s"
proof (cases s rule: short_or_long)
  case nil
  with a show ?thesis by (simp add: datePattern_def)
next
  case (one x)
  with a show ?thesis by (simp add: datePattern_def)
next
  case (two x y)
  with a show ?thesis by (auto simp: datePattern_def numeral_eq_Suc split: if_splits)
next
  case (more x y z s')
  with a show ?thesis by (auto simp: datePattern_def numeral_eq_Suc split: if_splits)
qed

lemma startsDate_append:
  assumes "startsDate (u @ w # r)" and "u \<noteq> []" and "isSpace w"
  shows "startsDate u"
proof (cases u rule: short_or_long)
  case nil
  with assms show ?thesis by simp
next
  case (one x)
  with assms show ?thesis by (cases r) (auto dest: digit_not_space)
next
  case (two x y)
  with assms show ?thesis by (auto simp: isSpace_def)
next
  case (more x y z s')
  with assms show ?thesis by simp
qed

lemma greedyStar_inside:
  assumes "u \<noteq> []" and "\<not> isSpace (last u)" and "x \<in> set (greedyStar Space (u @ w))"
  shows "\<exists>u'. u' \<noteq> [] \<and> suffix u' u \<and> x = u' @ w"
  using assms
proof (induction u)
  case Nil
  then show ?case by simp
next
  case (Cons a u)
  show ?case
  proof (cases "x = a # u @ w")
    case True
    then have "a # u \<noteq> [] \<and> suffix (a # u) (a # u) \<and> x = (a # u) @ w" by simp
    then show ?thesis by blast
  next
    case False
    with Cons.prems have sp: "isSpace a" and x: "x \<in> set (greedyStar Space (u @ w))"
      by (auto split: if_splits)
    from sp Cons.prems(2) have u: "u \<noteq> []" by auto
    with Cons.prems(2) have "\<not> isSpace (last u)" by simp
    from Cons.IH [OF u this x] obtain u' where "u' \<noteq> []" "suffix u' u" "x = u' @ w" by blast
    then have "u' \<noteq> [] \<and> suffix u' (a # u) \<and> x = u' @ w" by (simp add: suffix_ConsI)
    then show ?thesis by blast
  qed
qed

lemma titleOk_suffix:
  assumes "titleOk k t" and "u \<noteq> []" and "suffix u t"
  shows "\<not> isSpace (last u)" and "\<not> startsDate u"
proof -
  from assms(3) obtain p where "t = p @ u" by (auto simp: suffix_def)
  with assms(1,2) show "\<not> isSpace (last u)" by (simp add: titleOk_def)
  from assms(1,3) show "\<not> startsDate u"
    by (auto simp: titleOk_def list_all_iff)
qed

lemma no_early_date:
  assumes t: "titleOk k t" and u: "u \<noteq> []" "suffix u t" and w: "isSpace w"
  shows "rmatch (Seq (Plus Space) (Group datePattern)) (u @ w # r) = []"
proof -
  have "rmatch (Group datePattern) x = []" if x: "x \<in> set (greedyPlus Space (u @ w # r))" for x
  proof -
    from u(1) obtain a u1 where ua: "u = a # u1" by (cases u) auto
    from x ua have sp: "isSpace a" and x1: "x \<in> set (greedyStar Space (u1 @ w # r))"
      by (auto split: if_splits)
    from titleOk_suffix(1) [OF t u] sp ua have u1: "u1 \<noteq> []" by auto
    with titleOk_suffix(1) [OF t u] ua have "\<not> isSpace (last u1)" by simp
    from greedyStar_inside [OF u1 this x1] obtain u' where
      u': "u' \<noteq> []" "suffix u' u1" "x = u' @ w # r" by blast
    from u'(2) ua u(2) have "suffix u' t"
      by (meson suffix_ConsI suffix_order.trans)
    from titleOk_suffix(2) [OF t u'(1) this] have "\<not> startsDate u'" .
    with startsDate_append [OF _ u'(1) w, of r] u'(3) have "\<not> startsDate x" by blast
    with rmatch_date_startsDate [of x] show ?thesis by auto
  qed
  then show ?thesis by (simp add: concat_eq_Nil_conv)
qed

lemma lazyStar_head: "\<exists>zs. lazyStar k s = s # zs"
  by (cases s) simp_all

lemma lazy_skip:
  assumes "list_all (inCls k) t"
    and "\<And>u. u \<noteq> [] \<Longrightarrow> suffix u t \<Longrightarrow> rmatch B (u @ w) = []"
  shows "concat (map (\<lambda>x. map (\<lambda>(c2, s2). (take (length s - length x) s # c2, s2)) (rmatch B x))
           (lazyStar k (t @ w)))
       = concat (map (\<lambda>x. map (\<lambda>(c2, s2). (take (length s - length x) s # c2, s2)) (rmatch B x))
           (lazyStar k w))"
  using assms
proof (induction t)
  case Nil
  show ?case by simp
next
  case (Cons a t)
  have "rmatch B ((a # t) @ w) = []" by (rule Cons.prems(2)) simp_all
  moreover have "\<And>u. u \<noteq> [] \<Longrightarrow> suffix u t \<Longrightarrow> rmatch B (u @ w) = []"
    by (rule Cons.prems(2)) (simp_all add: suffix_ConsI)
  ultimately show ?case using Cons.IH Cons.prems(1) by simp
qed

lemma rmatch_lazy_group:
  "rmatch (Seq (Group (LazyStar k)) B) s =
     concat (map (\<lambda>x. map (\<lambda>(c2, s2). (take (length s - length x) s # c2, s2)) (rmatch B x))
       (lazyStar k s))"
  by (simp add: comp_def)

lemma title_then_date:
  assumes t: "titleOk k t" and d: "isDate d" and w: "isSpace w"
  shows "\<exists>zs. rmatch (Seq (Group (LazyStar k)) (Seq (Plus Space) (Group datePattern)))
                 (t @ w # d @ r) = ([t, d], r) # zs"
proof -
  let ?B = "Seq (Plus Space) (Group datePattern)"
  let ?s = "t @ w # d @ r"
  let ?H = "\<lambda>xs. concat (map (\<lambda>x. map (\<lambda>(c2, s2). (take (length ?s - length x) ?s # c2, s2))
                      (rmatch ?B x)) xs)"
  from t have cls: "list_all (inCls k) t" by (simp add: titleOk_def)
  have skip: "?H (lazyStar k (t @ w # d @ r)) = ?H (lazyStar k (w # d @ r))"
    by (rule lazy_skip [OF cls]) (rule no_early_date [OF t _ _ w])
  obtain zs where zs: "lazyStar k (w # d @ r) = (w # d @ r) # zs"
    using lazyStar_head by blast
  have "rmatch (Seq (Group (LazyStar k)) ?B) ?s = ?H (lazyStar k ?s)"
    by (rule rmatch_lazy_group)
  also have "\<dots> = ?H ((w # d @ r) # zs)" using skip zs by simp
  also have "\<dots> = ([t, d], r) # ?H zs"
    using rmatch_space_date [OF d w, of r] by simp
  finally show ?thesis by blast
qed

lemma seq_first:
  assumes "rmatch a s = (c1, s1) # zs" and "rmatch b s1 = (c2, s2) # zs'"
  shows "\<exists>zs''. rmatch (Seq a b) s = (c1 @ c2, s2) # zs''"
  using assms by simp

lemma record_first:
  assumes D: "rmatch D (dk @ w1 # t @ w2 # d @ r) = ([], w1 # t @ w2 # d @ r) # zs"
    and t: "titleOk k t" and d: "isDate d" and w: "isSpace w1" "isSpace w2"
  shows "\<exists>zs'. rmatch (Seq (Group D) (Seq (Plus Space) (Seq (Group (LazyStar k))
                   (Seq (Plus Space) (Group datePattern)))))
                 (dk @ w1 # t @ w2 # d @ r) = ([dk, t, d], r) # zs'"
proof -
  from t obtain a t' where ta: "t = a # t'" and a: "\<not> isSpace a"
    by (cases t) (auto simp: titleOk_def)
  have sp: "rmatch (Plus Space) (w1 # t @ w2 # d @ r) = ([], t @ w2 # d @ r) # []"
    using w(1) a by (simp add: ta)
  from title_then_date [OF t d w(2), of r] obtain zs1 where
    td: "rmatch (Seq (Group (LazyStar k)) (Seq (Plus Space) (Group datePattern)))
           (t @ w2 # d @ r) = ([t, d], r) # zs1" by blast
  from seq_first [OF sp td] obtain zs2 where
    std: "rmatch (Seq (Plus Space) (Seq (Group (LazyStar k)) (Seq (Plus Space) (Group datePattern))))
          (w1 # t @ w2 # d @ r) = ([t, d], r) # zs2" by auto
  from D have g: "rmatch (Group D) (dk @ w1 # t @ w2 # d @ r)
                    = ([dk], w1 # t @ w2 # d @ r)
                      # map (\<lambda>(c, s1). (c @ [take (length (dk @ w1 # t @ w2 # d @ r) - length s1)
                                                 (dk @ w1 # t @ w2 # d @ r)], s1)) zs"
    by simp
  from seq_first [OF g std] show ?thesis by simp
qed

lemma greedyStar_first:
  assumes "list_all (inCls k) ds" and "\<not> inCls k w"
  shows "\<exists>zs. greedyStar k (ds @ w # r) = (w # r) # zs"
  using assms by (induction ds) auto

lemma greedyPlus_first:
  assumes "ds \<noteq> []" and "list_all (inCls k) ds" and "\<not> inCls k w"
  shows "\<exists>zs. greedyPlus k (ds @ w # r) = (w # r) # zs"
proof -
  from assms(1) obtain a ds' where ds: "ds = a # ds'" by (cases ds) auto
  with assms(2) have "inCls k a" "list_all (inCls k) ds'" by simp_all
  with greedyStar_first [OF this(2) assms(3), of r] ds show ?thesis by simp
qed

lemma isDocketE:
  assumes "isDocket ps dk"
  obtains p ds where "p \<in> set ps" "dk = p @ ''-'' @ ds" "ds \<noteq> []" "list_all isDigit ds"
proof -
  from assms obtain p where p: "p \<in> set ps" "prefix (p @ ''-'') dk"
    "drop (length p + 1) dk \<noteq> []" "list_all isDigit (drop (length p + 1) dk)"
    by (auto simp: isDocket_def)
  from p(2) obtain ds where "dk = (p @ ''-'') @ ds" by (auto simp: prefix_def)
  with p that show ?thesis by auto
qed

lemma html_docket_first:
  assumes "isDocket htmlPrefixes dk" and "\<not> isDigit w"
  shows "\<exists>zs. rmatch htmlDocket (dk @ w # r) = ([], w # r) # zs"
proof -
  from assms(1) obtain p ds where p: "p \<in> set htmlPrefixes"
    and dk: "dk = p @ ''-'' @ ds" and ds: "ds \<noteq> []" "list_all isDigit ds"
    by (rule isDocketE)
  from ds assms(2) have "\<exists>zs. greedyPlus Digit (ds @ w # r) = (w # r) # zs"
    by (intro greedyPlus_first) (simp_all add: list_all_iff)
  then obtain zs where "greedyPlus Digit (ds @ w # r) = (w # r) # zs" by blast
  with p show ?thesis by (auto simp: dk htmlDocket_def htmlPrefixes_def)
qed

lemma pdf_docket_first:
  assumes "isDocket pdfPrefixes dk" and "\<not> isDigit w"
  shows "\<exists>zs. rmatch pdfDocket (dk @ w # r) = ([], w # r) # zs"
proof -
  from assms(1) obtain p ds where p: "p \<in> set pdfPrefixes"
    and dk: "dk = p @ ''-'' @ ds" and ds: "ds \<noteq> []" "list_all isDigit ds"
    by (rule isDocketE)
  from ds assms(2) have "\<exists>zs. greedyPlus Digit (ds @ w # r) = (w # r) # zs"
    by (intro greedyPlus_first) (simp_all add: list_all_iff)
  then obtain zs where "greedyPlus Digit (ds @ w # r) = (w # r) # zs" by blast
  moreover have "\<not> isDigit CHR ''M''" by (simp add: isDigit_def)
  ultimately show ?thesis using p by (auto simp: dk pdfDocket_def pdfPrefixes_def)
qed

lemma pattern_docket: "pattern = Seq (Group htmlDocket) (Seq (Plus Space) (Seq (Group (LazyStar Dot))
                   (Seq (Plus Space) (Group datePattern))))"
  by (simp add: pattern_def htmlDocket_def)

lemma recordPattern_docket: "recordPattern = Seq (Group pdfDocket) (Seq (Plus Space) (Seq (Group (LazyStar AnyChar))
                   (Seq (Plus Space) (Group datePattern))))"
  by (simp add: recordPattern_def pdfDocket_def)

lemma space_not_digit: "isSpace c \<Longrightarrow> \<not> isDigit c"
  using digit_not_space by blast

lemma html_record_first:
  assumes "wellFormedTriple htmlPrefixes Dot tr"
  shows "\<exists>zs. rmatch pattern (render tr @ r) = ([fst tr, fst (snd tr), snd (snd tr)], r) # zs"
proof -
  obtain dk t d where tr: "tr = (dk, t, d)" by (cases tr) auto
  from assms have dk: "isDocket htmlPrefixes dk" and t: "titleOk Dot t" and d: "isDate d"
    by (simp_all add: tr wellFormedTriple_def)
  have sp: "isSpace CHR '' ''" by (simp add: isSpace_def)
  from html_docket_first [OF dk space_not_digit [OF sp]] obtain zs where
    "rmatch htmlDocket (dk @ CHR '' '' # t @ CHR '' '' # d @ r) = ([], CHR '' '' # t @ CHR '' '' # d @ r) # zs"
    by blast
  from record_first [OF this t d sp sp] show ?thesis
    by (simp add: tr pattern_docket)
qed

lemma pdf_record_first:
  assumes "wellFormedTriple pdfPrefixes AnyChar tr"
  shows "\<exists>zs. rmatch recordPattern (render tr @ r) = ([fst tr, fst (snd tr), snd (snd tr)], r) # zs"
proof -
  obtain dk t d where tr: "tr = (dk, t, d)" by (cases tr) auto
  from assms have dk: "isDocket pdfPrefixes dk" and t: "titleOk AnyChar t" and d: "isDate d"
    by (simp_all add: tr wellFormedTriple_def)
  have sp: "isSpace CHR '' ''" by (simp add: isSpace_def)
  from pdf_docket_first [OF dk space_not_digit [OF sp]] obtain zs where
    "rmatch pdfDocket (dk @ CHR '' '' # t @ CHR '' '' # d @ r) = ([], CHR '' '' # t @ CHR '' '' # d @ r) # zs"
    by blast
  from record_first [OF this t d sp sp] show ?thesis
    by (simp add: tr recordPattern_docket)
qed

lemma search_first:
  "rmatch re s = (c, r) # zs \<Longrightarrow> search re i s = Some \<lparr>index = i, groups = c, rest = r\<rparr>"
  by (simp add: search.simps [of re i s])

lemma search_skip:
  "rmatch re (c # s) = [] \<Longrightarrow> search re i (c # s) = search re (Suc i) s"
  by (simp add: search.simps [of re i "c # s"])

lemma rmatch_Nil:
  assumes "0 < minLen re"
  shows "rmatch re [] = []"
proof (cases "rmatch re []")
  case (Cons x xs)
  then have "(fst x, snd x) \<in> set (rmatch re [])" by simp
  from rmatch_length [OF this] assms show ?thesis by simp
qed simp

lemma execAll_Nil:
  assumes "0 < minLen re"
  shows "execAll re i [] = Some []"
  using rmatch_Nil [OF assms]
  by (simp add: execAll.simps [of re i "[]"] search.simps [of re i "[]"])

lemma execAll_skip:
  assumes "0 < minLen re" and "rmatch re (c # s) = []"
  shows "execAll re i (c # s) = execAll re (Suc i) s"
proof (cases "search re (Suc i) s")
  case None
  with assms(2) show ?thesis
    by (simp add: execAll_unfold [OF assms(1)] search_skip)
next
  case (Some m)
  from search_rest_shorter [OF Some assms(1)]
  have "i + (length (c # s) - length (rest m)) = Suc i + (length s - length (rest m))"
    by simp
  with Some assms(2) show ?thesis
    by (simp add: execAll_unfold [OF assms(1), of i "c # s"]
        execAll_unfold [OF assms(1), of "Suc i" s] search_skip)
qed

lemma execAll_first:
  assumes "0 < minLen re" and "rmatch re s = (c, r) # zs"
  shows "execAll re i s =
           map_option ((#) \<lparr>index = i, groups = c, rest = r\<rparr>)
             (execAll re (i + (length s - length r)) r)"
  using search_first [OF assms(2), of i]
  by (simp add: execAll_unfold [OF assms(1), of i s])

lemma execAll_layout:
  assumes min: "0 < minLen re"
    and first: "\<And>tr r. tr \<in> set trs \<Longrightarrow>
        \<exists>zs. rmatch re (render tr @ r) = ([fst tr, fst (snd tr), snd (snd tr)], r) # zs"
    and sep: "\<And>s. rmatch re (sep # s) = []"
  shows "\<exists>ms. execAll re i (layout sep trs) = Some ms
              \<and> map groups ms = map (\<lambda>(dk, t, d). [dk, t, d]) trs"
  using first sep
proof (induction sep trs arbitrary: i rule: layout.induct)
  case (1 sep)
  show ?case by (simp add: execAll_Nil [OF min])
next
  case (2 sep x)
  from "2.prems"(1) [of x "[]"] obtain zs where
    "rmatch re (render x) = ([fst x, fst (snd x), snd (snd x)], []) # zs" by auto
  from execAll_first [OF min this, of i] show ?case
    by (simp add: execAll_Nil [OF min] split: prod.splits)
next
  case (3 sep x y ys)
  let ?r = "sep # layout sep (y # ys)"
  from "3.prems"(1) [of x ?r] obtain zs where
    x: "rmatch re (render x @ ?r) = ([fst x, fst (snd x), snd (snd x)], ?r) # zs" by auto
  have "\<exists>ms. execAll re j (layout sep (y # ys)) = Some ms
              \<and> map groups ms = map (\<lambda>(dk, t, d). [dk, t, d]) (y # ys)" for j
    by (rule "3.IH") (rule "3.prems"(1), simp, rule "3.prems"(2))
  then obtain ms where
    ms: "execAll re (Suc (i + (length (render x @ ?r) - length ?r))) (layout sep (y # ys)) = Some ms"
        "map groups ms = map (\<lambda>(dk, t, d). [dk, t, d]) (y # ys)" by blast
  from execAll_first [OF min x, of i] ms show ?case
    by (simp add: execAll_skip [OF min "3.prems"(2)] split: prod.splits)
qed

lemma pattern_sep: "isSpace c \<Longrightarrow> rmatch pattern (c # s) = []"
  by (auto simp: pattern_def isSpace_def)

lemma recordPattern_sep: "isSpace c \<Longrightarrow> rmatch recordPattern (c # s) = []"
  by (auto simp: recordPattern_def isSpace_def)

lemma html_matches_layout:
  assumes wf: "\<forall>tr \<in> set trs. wellFormedTriple htmlPrefixes Dot tr"
    and sep: "isSpace sep"
  shows "\<exists>ms. execAll pattern i (layout sep trs) = Some ms
              \<and> map groups ms = map (\<lambda>(dk, t, d). [dk, t, d]) trs"
  by (rule execAll_layout [OF minLen_pattern html_record_first pattern_sep [OF sep]])
     (simp add: wf)

lemma pdf_matches_layout:
  assumes wf: "\<forall>tr \<in> set trs. wellFormedTriple pdfPrefixes AnyChar tr"
    and sep: "isSpace sep"
  shows "\<exists>ms. execAll recordPattern i (layout sep trs) = Some ms
              \<and> map groups ms = map (\<lambda>(dk, t, d). [dk, t, d]) trs"
  by (rule execAll_layout [OF minLen_recordPattern pdf_record_first recordPattern_sep [OF sep]])
     (simp add: wf)

lemma html_layout:
  assumes wf: "\<forall>tr \<in> set trs. wellFormedTriple htmlPrefixes Dot tr"
    and dist: "distinct (map (\<lambda>(dk, t, d). (dk, replaceSpaces (trim t))) trs)"
    and sep: "isSpace sep"
  shows "\<exists>es. htmlExtract (layout sep trs) = Some es
              \<and> map (\<lambda>e. (number e, title e, decided e)) es
                  = map (\<lambda>(dk, t, d). (dk, replaceSpaces (trim t), d)) trs"
proof -
  from html_matches_layout [OF wf sep, of 0] obtain ms where
    ms: "execAll pattern 0 (layout sep trs) = Some ms"
    and g: "map groups ms = map (\<lambda>(dk, t, d). [dk, t, d]) trs" by blast
  let ?es = "map (htmlEntry (layout sep trs)) ms"
  have "map (\<lambda>e. (number e, title e, decided e)) ?es
          = map (\<lambda>g. (g ! 0, replaceSpaces (trim (g ! 1)), g ! 2)) (map groups ms)"
    by (simp add: htmlEntry_def)
  also have "\<dots> = map (\<lambda>(dk, t, d). (dk, replaceSpaces (trim t), d)) trs"
    unfolding g by (simp add: case_prod_beta)
  finally have proj: "map (\<lambda>e. (number e, title e, decided e)) ?es
          = map (\<lambda>(dk, t, d). (dk, replaceSpaces (trim t), d)) trs" .
  have "map entryKey ?es = map (\<lambda>p. (fst p, fst (snd p))) (map (\<lambda>e. (number e, title e, decided e)) ?es)"
    by (simp add: entryKey_def)
  also have "\<dots> = map (\<lambda>(dk, t, d). (dk, replaceSpaces (trim t))) trs"
    unfolding proj by (simp add: case_prod_beta)
  finally have "distinct (map entryKey ?es)" using dist by simp
  then have "uniqueEntries ?es = ?es" by (rule uniqueEntries_of_distinct)
  with ms proj show ?thesis by (simp add: htmlExtract_def htmlEntries_def)
qed

section \<open>The section loop of the PDF path\<close>

lemma indexFrom_none: "indexFrom pat i s = -1 \<longleftrightarrow> \<not> includesStr s pat"
  by (induction s arbitrary: i) auto

lemma indexFrom_found:
  "indexFrom pat i s = int k \<Longrightarrow> i \<le> k \<and> k \<le> i + length s \<and> prefix pat (drop (k - i) s)"
proof (induction s arbitrary: i)
  case Nil
  then show ?case by (auto split: if_splits)
next
  case (Cons c cs)
  show ?case
  proof (cases "prefix pat (c # cs)")
    case True
    with Cons.prems show ?thesis by simp
  next
    case False
    with Cons.prems have "indexFrom pat (Suc i) cs = int k" by simp
    from Cons.IH [OF this] have ih: "Suc i \<le> k" "k \<le> Suc i + length cs"
      "prefix pat (drop (k - Suc i) cs)" by simp_all
    from ih(1) have "k - i = Suc (k - Suc i)" by simp
    with ih show ?thesis by simp
  qed
qed

lemma indexFrom_range: "indexFrom pat i s = -1 \<or> (\<exists>k. indexFrom pat i s = int k)"
  by (induction s arbitrary: i) auto

lemma indexOf_none: "indexOf s pat 0 = -1 \<longleftrightarrow> \<not> includesStr s pat"
  by (simp add: indexOf_def indexFrom_none)

lemma indexOf_prefix: "prefix pat s \<Longrightarrow> pat \<noteq> [] \<Longrightarrow> indexOf s pat 0 = 0"
  by (cases s) (simp_all add: indexOf_def)

lemma indexOf_found:
  assumes "indexOf s pat from = int k" and "from \<le> length s"
  shows "from \<le> k \<and> k \<le> length s \<and> prefix pat (drop k s)"
proof -
  from assms have "indexFrom pat from (drop from s) = int k" by (simp add: indexOf_def min_def)
  from indexFrom_found [OF this] assms(2) show ?thesis by auto
qed

lemma indexOf_range: "indexOf s pat from = -1 \<or> (\<exists>k. indexOf s pat from = int k)"
  unfolding indexOf_def by (rule indexFrom_range)

lemma sectionText_from:
  assumes "startIdx \<le> length fullText"
  shows "\<exists>n. sectionText fullText currentSection following startIdx = take n (drop startIdx fullText)"
proof -
  define endIdx where "endIdx = (case following of
                      [] \<Rightarrow> int (length fullText)
                    | nextSection # _ \<Rightarrow> indexOf fullText (header nextSection) startIdx)"
  define e where "e = (if endIdx = -1 then length fullText else nat endIdx)"
  have "startIdx \<le> e \<and> e \<le> length fullText"
  proof (cases "endIdx = -1")
    case True
    with assms show ?thesis by (simp add: e_def)
  next
    case False
    show ?thesis
    proof (cases following)
      case Nil
      with assms show ?thesis by (simp add: e_def endIdx_def)
    next
      case (Cons nextSection rest)
      with False indexOf_range [of fullText "header nextSection" startIdx]
      obtain k where k: "indexOf fullText (header nextSection) startIdx = int k"
        by (auto simp: endIdx_def)
      from indexOf_found [OF k assms] k Cons show ?thesis by (simp add: e_def endIdx_def)
    qed
  qed
  then have "substring fullText startIdx e = take (e - startIdx) (drop startIdx fullText)"
    using assms by (simp add: substring_def Let_def min_def max_def)
  then show ?thesis
    unfolding sectionText_def Let_def endIdx_def [symmetric] e_def [symmetric] by blast
qed

lemma sectionLoop_total: "\<exists>es. sectionLoop secs fullText = Some es"
proof (induction secs)
  case Nil
  show ?case by simp
next
  case (Cons s secs)
  from Cons.IH obtain es where es: "sectionLoop secs fullText = Some es" by blast
  obtain ms where "execAll recordPattern 0
      (sectionText fullText s secs (nat (indexOf fullText (header s) 0))) = Some ms"
    using execAll_total [OF minLen_recordPattern] by blast
  with es show ?case by (simp add: Let_def)
qed

lemma sectionLoop_none:
  assumes "\<forall>s \<in> set secs. \<not> includesStr fullText (header s)"
  shows "sectionLoop secs fullText = Some []"
  using assms by (induction secs) (simp_all add: indexOf_none Let_def)

lemma sectionPush_guard:
  "e \<in> set (sectionPush s m) \<Longrightarrow> 0 < length (title e) \<and> length (title e) < 500"
  by (auto simp: sectionPush_def Let_def split: if_splits)

lemma sectionLoop_guard:
  assumes "sectionLoop secs fullText = Some es" and "e \<in> set es"
  shows "0 < length (title e) \<and> length (title e) < 500"
  using assms
proof (induction secs arbitrary: es)
  case Nil
  then show ?case by simp
next
  case (Cons s secs)
  show ?case
  proof (cases "indexOf fullText (header s) 0 = -1")
    case True
    with Cons show ?thesis by (simp add: Let_def)
  next
    case False
    with Cons.prems obtain ms rest where
      "es = concat (map (sectionPush s) ms) @ rest" and rest: "sectionLoop secs fullText = Some rest"
      by (auto simp: Let_def split: option.splits)
    with Cons.prems(2) consider m where "e \<in> set (sectionPush s m)" | "e \<in> set rest" by auto
    then show ?thesis
    proof cases
      case 1 then show ?thesis by (rule sectionPush_guard)
    next
      case 2 with Cons.IH [OF rest] show ?thesis by simp
    qed
  qed
qed

lemma sectionLoop_origin:
  assumes "sectionLoop secs fullText = Some es" and "e \<in> set es"
  shows "\<exists>before currentSection following startIdx n ms m.
           secs = before @ currentSection # following
         \<and> indexOf fullText (header currentSection) 0 = int startIdx
         \<and> prefix (header currentSection) (drop startIdx fullText)
         \<and> sectionText fullText currentSection following startIdx = take n (drop startIdx fullText)
         \<and> execAll recordPattern 0 (take n (drop startIdx fullText)) = Some ms
         \<and> m \<in> set ms
         \<and> e = \<lparr>number = groups m ! 0, title = pdfTitle (groups m ! 1), decided = groups m ! 2,
                category = name currentSection\<rparr>"
  using assms
proof (induction secs arbitrary: es)
  case Nil
  then show ?case by simp
next
  case (Cons s secs)
  have later: ?case if rest: "sectionLoop secs fullText = Some rest" and e: "e \<in> set rest" for rest
  proof -
    from Cons.IH [OF rest e] obtain before cur following startIdx n ms m where
      h: "secs = before @ cur # following"
         "indexOf fullText (header cur) 0 = int startIdx"
         "prefix (header cur) (drop startIdx fullText)"
         "sectionText fullText cur following startIdx = take n (drop startIdx fullText)"
         "execAll recordPattern 0 (take n (drop startIdx fullText)) = Some ms"
         "m \<in> set ms"
         "e = \<lparr>number = groups m ! 0, title = pdfTitle (groups m ! 1), decided = groups m ! 2,
                category = name cur\<rparr>"
      by blast
    from h(1) have "s # secs = (s # before) @ cur # following" by simp
    with h(2-7) show ?thesis by blast
  qed
  show ?case
  proof (cases "indexOf fullText (header s) 0 = -1")
    case True
    with Cons.prems later show ?thesis by (simp add: Let_def)
  next
    case False
    with indexOf_range [of fullText "header s" 0] obtain k where
      k: "indexOf fullText (header s) 0 = int k" by auto
    from indexOf_found [OF k] have kb: "k \<le> length fullText" and pre: "prefix (header s) (drop k fullText)"
      by simp_all
    from sectionText_from [OF kb] obtain n where
      n: "sectionText fullText s secs k = take n (drop k fullText)" by blast
    from Cons.prems(1) False k n obtain ms rest where
      ms: "execAll recordPattern 0 (take n (drop k fullText)) = Some ms"
      and es: "es = concat (map (sectionPush s) ms) @ rest"
      and rest: "sectionLoop secs fullText = Some rest"
      by (auto simp: Let_def split: option.splits)
    from es Cons.prems(2) consider m where "m \<in> set ms" "e \<in> set (sectionPush s m)" | "e \<in> set rest"
      by auto
    then show ?thesis
    proof cases
      case 1
      then have "e = \<lparr>number = groups m ! 0, title = pdfTitle (groups m ! 1), decided = groups m ! 2,
                category = name s\<rparr>"
        by (auto simp: sectionPush_def Let_def split: if_splits)
      with k pre n ms 1(1) have "s # secs = [] @ s # secs
         \<and> indexOf fullText (header s) 0 = int k
         \<and> prefix (header s) (drop k fullText)
         \<and> sectionText fullText s secs k = take n (drop k fullText)
         \<and> execAll recordPattern 0 (take n (drop k fullText)) = Some ms
         \<and> m \<in> set ms
         \<and> e = \<lparr>number = groups m ! 0, title = pdfTitle (groups m ! 1), decided = groups m ! 2,
                category = name s\<rparr>" by simp
      then show ?thesis by blast
    next
      case 2
      with rest later show ?thesis by blast
    qed
  qed
qed

lemma revocation_only:
  assumes "s \<in> set sections" and "header s = ''REVOCATIONS''"
  shows "name s = ''REVOCATION''"
  using assms by (auto simp: sections_def)

text \<open>
  C4 fails on the code. A section ends at the first occurrence of the header of the next
  entry of the table, not at the next header that stands in the text: when the header of
  the next entry of the table is absent, the section runs to the end of the text and takes
  in every later section. In the first text REVOCATIONS is followed by a record and by no
  further header, and the record is returned as NAME CHANGE; in the second the record under
  REVOCATIONS is pushed for two sections and returned with the label of the earlier one,
  CERTIFICATE, PERMIT, LICENSE.
\<close>

theorem section_runs_over_later_headers:
  "pdfExtract ''NAME CHANGES REVOCATIONS MC-2 B 01/02/2024''
     = Some [\<lparr>number = ''MC-2'', title = ''B'', decided = ''01/02/2024'',
              category = ''NAME CHANGE''\<rparr>]
   \<and> pdfEntries ''CERTIFICATES, PERMITS & LICENSES MC-1 A 01/02/2024 REVOCATIONS MC-2 B 01/03/2024''
     = Some [\<lparr>number = ''MC-1'', title = ''A'', decided = ''01/02/2024'',
              category = ''CERTIFICATE, PERMIT, LICENSE''\<rparr>,
             \<lparr>number = ''MC-2'', title = ''B'', decided = ''01/03/2024'',
              category = ''CERTIFICATE, PERMIT, LICENSE''\<rparr>,
             \<lparr>number = ''MC-2'', title = ''B'', decided = ''01/03/2024'',
              category = ''REVOCATION''\<rparr>]
   \<and> pdfExtract ''CERTIFICATES, PERMITS & LICENSES MC-1 A 01/02/2024 REVOCATIONS MC-2 B 01/03/2024''
     = Some [\<lparr>number = ''MC-1'', title = ''A'', decided = ''01/02/2024'',
              category = ''CERTIFICATE, PERMIT, LICENSE''\<rparr>,
             \<lparr>number = ''MC-2'', title = ''B'', decided = ''01/03/2024'',
              category = ''CERTIFICATE, PERMIT, LICENSE''\<rparr>]"
  by code_simp

text \<open>
  C5 fails on the code. The second pass is guarded by the number of entries pushed, not by
  the headers found. In the first text the header REVOCATIONS is found, the one record of
  its section has an empty title and is dropped by the guard on the title, so no entry is
  pushed; the second pass is made and returns that record, with its empty title, as
  MISCELLANEOUS. In the second text the header NAME CHANGES is found after the only record,
  and the second pass is made as well.
\<close>

theorem second_pass_with_header_found:
  "includesStr ''REVOCATIONS MC-2  01/03/2024'' ''REVOCATIONS''
   \<and> sectionLoop sections ''REVOCATIONS MC-2  01/03/2024'' = Some []
   \<and> fallbackTaken ''REVOCATIONS MC-2  01/03/2024'' = Some True
   \<and> pdfExtractFallback ''REVOCATIONS MC-2  01/03/2024''
       = Some [\<lparr>number = ''MC-2'', title = [], decided = ''01/03/2024'',
                category = ''MISCELLANEOUS''\<rparr>]
   \<and> includesStr ''MC-1 A 01/02/2024 NAME CHANGES'' ''NAME CHANGES''
   \<and> fallbackTaken ''MC-1 A 01/02/2024 NAME CHANGES'' = Some True
   \<and> pdfExtractFallback ''MC-1 A 01/02/2024 NAME CHANGES''
       = Some [\<lparr>number = ''MC-1'', title = ''A'', decided = ''01/02/2024'',
                category = ''MISCELLANEOUS''\<rparr>]"
  by code_simp

section \<open>Texts made of well-formed triples\<close>

lemma sectionLoop_skip_before:
  assumes "\<forall>s \<in> set before. \<not> includesStr fullText (header s)"
  shows "sectionLoop (before @ later) fullText = sectionLoop later fullText"
  using assms by (induction before) (simp_all add: indexOf_none Let_def)

lemma rp_skip1:
  "c \<noteq> CHR ''M'' \<Longrightarrow> c \<noteq> CHR ''F'' \<Longrightarrow> rmatch recordPattern (c # s) = []"
  by (simp add: recordPattern_def)

lemma rp_skip2:
  "c \<noteq> CHR ''C'' \<Longrightarrow> c \<noteq> CHR ''X'' \<Longrightarrow> rmatch recordPattern (CHR ''M'' # c # s) = []"
  by (simp add: recordPattern_def)

lemma rp_skip3:
  "c \<noteq> CHR ''F'' \<Longrightarrow> rmatch recordPattern (CHR ''F'' # c # s) = []"
  by (simp add: recordPattern_def)

lemma space_not_letter:
  assumes "isSpace c"
  shows "c \<noteq> CHR ''M''" "c \<noteq> CHR ''F''" "c \<noteq> CHR ''C''" "c \<noteq> CHR ''X''"
  using assms by (auto simp: isSpace_def)

lemma header_skip:
  assumes "s \<in> set sections" and "isSpace c"
  shows "execAll recordPattern i (header s @ c # body)
           = execAll recordPattern (i + length (header s) + 1) body"
  using assms(1) space_not_letter [OF assms(2)]
  by (auto simp: sections_def execAll_skip [OF minLen_recordPattern] rp_skip1 rp_skip2 rp_skip3)


lemma sectionPush_groups:
  "sectionPush s m =
     (if 0 < length (pdfTitle (groups m ! 1)) \<and> length (pdfTitle (groups m ! 1)) < 500
      then [\<lparr>number = groups m ! 0, title = pdfTitle (groups m ! 1), decided = groups m ! 2,
              category = name s\<rparr>]
      else [])"
  by (simp add: sectionPush_def Let_def)

lemma pushes_of_groups:
  assumes "map groups ms = map (\<lambda>(dk, t, d). [dk, t, d]) trs"
  shows "concat (map (sectionPush s) ms)
           = concat (map (\<lambda>(dk, t, d).
                 if 0 < length (pdfTitle t) \<and> length (pdfTitle t) < 500
                 then [\<lparr>number = dk, title = pdfTitle t, decided = d, category = name s\<rparr>]
                 else []) trs)"
  using assms
proof (induction ms arbitrary: trs)
  case Nil
  then show ?case by simp
next
  case (Cons m ms)
  then obtain tr trs' where trs: "trs = tr # trs'" by (cases trs) auto
  obtain dk t d where tr: "tr = (dk, t, d)" by (cases tr) auto
  from Cons.prems trs tr have g: "groups m = [dk, t, d]"
    and r: "map groups ms = map (\<lambda>(dk, t, d). [dk, t, d]) trs'" by simp_all
  from Cons.IH [OF r] g show ?case by (simp add: trs tr sectionPush_groups)
qed

lemma sections_distinct: "distinct sections"
  by (simp add: sections_def)

lemma header_nonempty: "s \<in> set sections \<Longrightarrow> header s \<noteq> []"
  by (auto simp: sections_def)

lemma substring_all: "substring s 0 (length s) = s"
  by (simp add: substring_def)

lemma sectionText_whole:
  assumes "\<forall>s' \<in> set following. \<not> includesStr fullText (header s')"
  shows "sectionText fullText s following 0 = fullText"
proof (cases following)
  case Nil
  then show ?thesis by (simp add: sectionText_def substring_all)
next
  case (Cons nxt later)
  with assms have "indexOf fullText (header nxt) 0 = -1" by (simp add: indexOf_none)
  with Cons show ?thesis by (simp add: sectionText_def substring_all)
qed

lemma pdf_single_section:
  assumes s: "s \<in> set sections"
    and only: "\<forall>s' \<in> set sections. s' \<noteq> s \<longrightarrow>
                 \<not> includesStr (header s @ c # layout sep trs) (header s')"
    and wf: "\<forall>tr \<in> set trs. wellFormedTriple pdfPrefixes AnyChar tr"
    and c: "isSpace c" and sep: "isSpace sep"
  shows "pdfEntries (header s @ c # layout sep trs)
           = Some (concat (map (\<lambda>(dk, t, d).
                 if 0 < length (pdfTitle t) \<and> length (pdfTitle t) < 500
                 then [\<lparr>number = dk, title = pdfTitle t, decided = d, category = name s\<rparr>]
                 else []) trs))"
proof -
  let ?T = "header s @ c # layout sep trs"
  from s obtain before following where split: "sections = before @ s # following"
    by (auto simp: in_set_conv_decomp)
  from sections_distinct have ns: "s \<notin> set before" "s \<notin> set following"
    unfolding split by simp_all
  have sub: "set before \<subseteq> set sections" "set following \<subseteq> set sections"
    unfolding split by auto
  have other: "\<not> includesStr ?T (header s')" if "s' \<in> set sections" "s' \<noteq> s" for s'
    using only that by simp
  have nb: "\<forall>s' \<in> set before. \<not> includesStr ?T (header s')"
  proof
    fix s' assume a: "s' \<in> set before"
    with ns(1) have "s' \<noteq> s" by auto
    moreover from a sub(1) have "s' \<in> set sections" by auto
    ultimately show "\<not> includesStr ?T (header s')" by (rule other [rotated])
  qed
  have nf: "\<forall>s' \<in> set following. \<not> includesStr ?T (header s')"
  proof
    fix s' assume a: "s' \<in> set following"
    with ns(2) have "s' \<noteq> s" by auto
    moreover from a sub(2) have "s' \<in> set sections" by auto
    ultimately show "\<not> includesStr ?T (header s')" by (rule other [rotated])
  qed
  have start: "indexOf ?T (header s) 0 = 0"
    by (rule indexOf_prefix) (simp_all add: header_nonempty [OF s])
  have whole: "sectionText ?T s following 0 = ?T"
    by (rule sectionText_whole [OF nf])
  from pdf_matches_layout [OF wf sep, of "0 + length (header s) + 1"] obtain ms where
    ms: "execAll recordPattern (0 + length (header s) + 1) (layout sep trs) = Some ms"
    and g: "map groups ms = map (\<lambda>(dk, t, d). [dk, t, d]) trs" by blast
  have ex: "execAll recordPattern 0 ?T = Some ms"
    using header_skip [OF s c, of 0 "layout sep trs"] ms by simp
  have "sectionLoop sections ?T = sectionLoop (s # following) ?T"
    unfolding split by (rule sectionLoop_skip_before [OF nb])
  also have "\<dots> = Some (concat (map (sectionPush s) ms))"
    using start whole ex sectionLoop_none [OF nf] by (simp add: Let_def)
  finally show ?thesis
    using pushes_of_groups [OF g, of s] by (simp add: pdfEntries_def)
qed







lemma titleOk_any: "titleOk k t \<Longrightarrow> titleOk AnyChar t"
  by (simp add: titleOk_def list_all_iff)





section \<open>The title guard of the PDF path\<close>

lemma collapseWs_last:
  assumes "t \<noteq> []" and "\<not> isSpace (last t)"
  shows "collapseWs b t \<noteq> [] \<and> last (collapseWs b t) = last t"
  using assms
proof (induction t arbitrary: b)
  case Nil
  then show ?case by simp
next
  case (Cons a t)
  show ?case
  proof (cases "t = []")
    case True
    with Cons.prems show ?thesis by simp
  next
    case False
    with Cons.prems have "\<not> isSpace (last t)" by simp
    from Cons.IH [OF False this] False show ?thesis by simp
  qed
qed

lemma trim_id:
  assumes "x \<noteq> []" and "\<not> isSpace (hd x)" and "\<not> isSpace (last x)"
  shows "trim x = x"
proof -
  from assms(1,2) have "dropWhile isSpace x = x" by (cases x) simp_all
  moreover from assms(1,3) have "dropWhile isSpace (rev x) = rev x"
    by (cases "rev x") (simp_all add: hd_rev [symmetric] del: hd_rev)
  ultimately show ?thesis by (simp add: trim_def)
qed

lemma titles_agree:
  assumes "titleOk Dot t"
  shows "pdfTitle t = replaceSpaces (trim t)"
proof -
  from assms have t: "t \<noteq> []" "\<not> isSpace (hd t)" "\<not> isSpace (last t)"
    and nl: "\<forall>c \<in> set t. \<not> isLineTerminator c"
    by (simp_all add: titleOk_def list_all_iff)
  from nl have "replaceNewlines t = t"
    by (auto simp: replaceNewlines_def isLineTerminator_def map_idI)
  moreover from t obtain a r where ar: "t = a # r" by (cases t) auto
  with t(2) have "hd (collapseWs False t) = hd t" by simp
  with t collapseWs_last [OF t(1,3), of False]
  have "trim (collapseWs False t) = collapseWs False t"
    by (intro trim_id) simp_all
  ultimately show ?thesis by (simp add: pdfTitle_def replaceSpaces_def trim_id [OF t])
qed

lemma html_triple_is_pdf_triple:
  assumes "wellFormedTriple htmlPrefixes Dot tr"
  shows "wellFormedTriple pdfPrefixes AnyChar tr"
  using assms
  by (auto simp: wellFormedTriple_def isDocket_def htmlPrefixes_def pdfPrefixes_def
      intro: titleOk_any)

lemma includesStr_subset: "includesStr s pat \<Longrightarrow> set pat \<subseteq> set s"
proof (induction s)
  case Nil
  then show ?case by simp
next
  case (Cons a s)
  show ?case
  proof (cases "prefix pat (a # s)")
    case True
    then show ?thesis by (rule set_mono_prefix)
  next
    case False
    with Cons.prems have "includesStr s pat" by simp
    from Cons.IH [OF this] show ?thesis by auto
  qed
qed

lemma collapseWs_replicate: "\<not> isSpace a \<Longrightarrow> collapseWs b (replicate n a) = replicate n a"
  by (induction n arbitrary: b) simp_all

lemma dropWhile_replicate: "\<not> P a \<Longrightarrow> dropWhile P (replicate n a) = replicate n a"
  by (cases n) simp_all

lemma trim_replicate: "\<not> isSpace a \<Longrightarrow> trim (replicate n a) = replicate n a"
  by (simp add: trim_def dropWhile_replicate)

lemma pdfTitle_replicate:
  assumes "\<not> isSpace a"
  shows "pdfTitle (replicate n a) = replicate n a"
proof -
  from assms have "a \<noteq> CHR 0x0A" by (auto simp: isSpace_def)
  then have "replaceNewlines (replicate n a) = replicate n a"
    by (simp add: replaceNewlines_def)
  with assms show ?thesis
    by (simp add: pdfTitle_def replaceSpaces_def collapseWs_replicate trim_replicate)
qed

lemma startsDate_same:
  assumes "\<forall>x \<in> set u. \<not> isDigit x"
  shows "\<not> startsDate u"
  using assms by (cases u rule: short_or_long) auto

lemma titleOk_replicate:
  assumes "0 < n" and "\<not> isSpace a" and "\<not> isDigit a" and "inCls k a"
  shows "titleOk k (replicate n a)"
proof -
  have "\<not> startsDate u" if "suffix u (replicate n a)" for u
  proof (rule startsDate_same, rule ballI)
    fix x assume "x \<in> set u"
    with that obtain zs where "replicate n a = zs @ u" "x \<in> set u" by (auto simp: suffix_def)
    then have "x \<in> set (zs @ u)" by simp
    with \<open>replicate n a = zs @ u\<close> have "x \<in> set (replicate n a)" by (simp only:)
    with assms(3) show "\<not> isDigit x" by (simp split: if_splits)
  qed
  then have nd: "list_all (\<lambda>u. \<not> startsDate u) (suffixes (replicate n a))"
    by (auto simp: list_all_iff in_set_suffixes)
  from assms(1) obtain m where n: "n = Suc m" by (cases n) auto
  have ne: "replicate n a \<noteq> []" and h: "hd (replicate n a) = a" and l: "last (replicate n a) = a"
    by (simp_all add: n)
  have cl: "list_all (inCls k) (replicate n a)" using assms(4) by (simp add: list_all_iff)
  from ne h l cl nd assms(2) show ?thesis by (simp only: titleOk_def) simp
qed

text \<open>
  C2. Every entry the PDF endpoint pushes has a normalised title of more than 0 and less
  than 500 characters, and a match whose normalised title is empty or has 500 characters or
  more pushes nothing; the HTML endpoint pushes one entry for every match, whatever the
  length of its title. So a well-formed triple whose normalised title has 500 characters
  or more is returned by the HTML endpoint, with that title, and is not returned by the PDF
  endpoint, even under a section header.
\<close>

theorem title_guard_pdf_only:
  "(\<forall>es. pdfEntries fullText = Some es \<longrightarrow>
       (\<forall>e \<in> set es. 0 < length (title e) \<and> length (title e) < 500))
   \<and> (\<not> (0 < length (pdfTitle (groups m ! 1)) \<and> length (pdfTitle (groups m ! 1)) < 500)
        \<longrightarrow> sectionPush s m = [])
   \<and> (\<exists>ms. execAll pattern 0 rawText = Some ms
           \<and> htmlEntries rawText = Some (map (htmlEntry rawText) ms))
   \<and> (wellFormedTriple htmlPrefixes Dot (dk, t, d) \<and> 500 \<le> length (pdfTitle t)
        \<and> s \<in> set sections \<and> isSpace c
        \<and> (\<forall>s' \<in> set sections. s' \<noteq> s \<longrightarrow>
              \<not> includesStr (header s @ c # render (dk, t, d)) (header s'))
      \<longrightarrow> (\<exists>e. htmlExtract (render (dk, t, d)) = Some [e] \<and> title e = pdfTitle t
                \<and> 500 \<le> length (title e))
          \<and> pdfExtract (header s @ c # render (dk, t, d)) = Some [])"
proof (intro conjI allI impI ballI)
  fix es e assume "pdfEntries fullText = Some es" "e \<in> set es"
  then show "0 < length (title e)" "length (title e) < 500"
    using sectionLoop_guard [of sections fullText es e] by (simp_all add: pdfEntries_def)
next
  assume "\<not> (0 < length (pdfTitle (groups m ! 1)) \<and> length (pdfTitle (groups m ! 1)) < 500)"
  then show "sectionPush s m = []" by (simp add: sectionPush_def Let_def)
next
  from execAll_total [OF minLen_pattern, of 0 rawText] obtain ms where
    "execAll pattern 0 rawText = Some ms" by blast
  then show "\<exists>ms. execAll pattern 0 rawText = Some ms
           \<and> htmlEntries rawText = Some (map (htmlEntry rawText) ms)"
    by (simp add: htmlEntries_def)
next
  assume h: "wellFormedTriple htmlPrefixes Dot (dk, t, d) \<and> 500 \<le> length (pdfTitle t)
        \<and> s \<in> set sections \<and> isSpace c
        \<and> (\<forall>s' \<in> set sections. s' \<noteq> s \<longrightarrow>
              \<not> includesStr (header s @ c # render (dk, t, d)) (header s'))"
  then have wf: "wellFormedTriple htmlPrefixes Dot (dk, t, d)" by blast
  then have t: "titleOk Dot t" by (simp add: wellFormedTriple_def)
  have sp: "isSpace CHR '' ''" by (simp add: isSpace_def)
  from html_layout [of "[(dk, t, d)]" "CHR '' ''"] wf sp obtain es where
    es: "htmlExtract (render (dk, t, d)) = Some es"
        "map (\<lambda>e. (number e, title e, decided e)) es = [(dk, replaceSpaces (trim t), d)]"
    by auto
  from es(2) obtain e where e: "es = [e]" "title e = replaceSpaces (trim t)" by auto
  with es(1) h titles_agree [OF t]
  show "\<exists>e. htmlExtract (render (dk, t, d)) = Some [e] \<and> title e = pdfTitle t
                \<and> 500 \<le> length (title e)"
    by simp
  from h have "pdfEntries (header s @ c # layout (CHR '' '') [(dk, t, d)])
           = Some (concat (map (\<lambda>(dk, t, d).
                 if 0 < length (pdfTitle t) \<and> length (pdfTitle t) < 500
                 then [\<lparr>number = dk, title = pdfTitle t, decided = d, category = name s\<rparr>]
                 else []) [(dk, t, d)]))"
    by (intro pdf_single_section) (simp_all add: sp html_triple_is_pdf_triple)
  with h have "pdfEntries (header s @ c # render (dk, t, d)) = Some []" by simp
  then show "pdfExtract (header s @ c # render (dk, t, d)) = Some []"
    by (simp add: pdfExtract_def uniqueEntries_eq firstOccurrences_def)
qed

theorem title_guard_pdf_only_witness:
  "pdfEntries ''REVOCATIONS MC-1 Smith 01/02/2024''
     = Some [\<lparr>number = ''MC-1'', title = ''Smith'', decided = ''01/02/2024'', category = ''REVOCATION''\<rparr>]
   \<and> 0 < length (title \<lparr>number = ''MC-1'', title = ''Smith'', decided = ''01/02/2024'', category = ''REVOCATION''\<rparr>)
   \<and> length (title \<lparr>number = ''MC-1'', title = ''Smith'', decided = ''01/02/2024'', category = ''REVOCATION''\<rparr>) < 500
   \<and> length (pdfTitle (replicate 500 (CHR ''A''))) = 500
   \<and> sectionPush \<lparr>name = ''REVOCATION'', header = ''REVOCATIONS''\<rparr>
        \<lparr>index = 12, groups = [''MC-2'', replicate 500 (CHR ''A''), ''01/02/2024''], rest = []\<rparr> = []
   \<and> (\<exists>e. htmlExtract (render (''MC-2'', replicate 500 (CHR ''A''), ''01/02/2024'')) = Some [e]
          \<and> length (title e) = 500)
   \<and> pdfExtract (''REVOCATIONS'' @ CHR '' '' # render (''MC-2'', replicate 500 (CHR ''A''), ''01/02/2024''))
       = Some []"
proof -
  let ?T = "''REVOCATIONS MC-1 Smith 01/02/2024''"
  let ?e = "\<lparr>number = ''MC-1'', title = ''Smith'', decided = ''01/02/2024'', category = ''REVOCATION''\<rparr>"
  let ?s = "\<lparr>name = ''REVOCATION'', header = ''REVOCATIONS''\<rparr>"
  define t where "t = replicate 500 (CHR ''A'')"
  let ?m = "\<lparr>index = 12, groups = [''MC-2'', t, ''01/02/2024''], rest = []\<rparr>"
  note th = title_guard_pdf_only [of ?T ?m ?s "[]" "''MC-2''" t "''01/02/2024''" "CHR '' ''"]
  have A: "\<not> isSpace CHR ''A''" "\<not> isDigit CHR ''A''" "inCls Dot CHR ''A''" by code_simp+
  have tt: "pdfTitle t = t" unfolding t_def by (rule pdfTitle_replicate [OF A(1)])
  have tl: "length t = 500" by (simp add: t_def)
  have st: "set t = {CHR ''A''}" by (simp add: t_def)
  have tok: "titleOk Dot t" unfolding t_def by (rule titleOk_replicate [OF _ A]) simp
  have p: "pdfEntries ?T = Some [?e]" by code_simp
  from tt tl have l: "length (pdfTitle t) = 500" by simp
  then have g: "\<not> (0 < length (pdfTitle (groups ?m ! 1)) \<and> length (pdfTitle (groups ?m ! 1)) < 500)"
    by simp
  from th p have "\<forall>e \<in> set [?e]. 0 < length (title e) \<and> length (title e) < 500" by blast
  then have a: "0 < length (title ?e)" "length (title ?e) < 500" by simp_all
  from th g have b: "sectionPush ?s ?m = []" by blast
  have dk: "isDocket htmlPrefixes ''MC-2''" and d: "isDate ''01/02/2024''" by code_simp+
  with tok have wf: "wellFormedTriple htmlPrefixes Dot (''MC-2'', t, ''01/02/2024'')"
    by (simp add: wellFormedTriple_def)
  have s: "?s \<in> set sections" by code_simp
  have sp: "isSpace CHR '' ''" by code_simp
  have sub: "set (header ?s @ CHR '' '' # render (''MC-2'', t, ''01/02/2024''))
               \<subseteq> set ''REVOCATIONS MC-2 A 01/02/2024''"
    by (simp add: st)
  have "list_all (\<lambda>s'. s' \<noteq> ?s \<longrightarrow> \<not> set (header s') \<subseteq> set ''REVOCATIONS MC-2 A 01/02/2024'')
          sections" by code_simp
  then have no: "\<forall>s' \<in> set sections. s' \<noteq> ?s \<longrightarrow>
                   \<not> set (header s') \<subseteq> set ''REVOCATIONS MC-2 A 01/02/2024''"
    by (simp only: list_all_iff)
  have only: "\<forall>s' \<in> set sections. s' \<noteq> ?s \<longrightarrow>
          \<not> includesStr (header ?s @ CHR '' '' # render (''MC-2'', t, ''01/02/2024'')) (header s')"
  proof (intro ballI impI notI)
    fix s' assume s': "s' \<in> set sections" "s' \<noteq> ?s"
    assume "includesStr (header ?s @ CHR '' '' # render (''MC-2'', t, ''01/02/2024'')) (header s')"
    then have "set (header s') \<subseteq> set (header ?s @ CHR '' '' # render (''MC-2'', t, ''01/02/2024''))"
      by (rule includesStr_subset)
    with sub have "set (header s') \<subseteq> set ''REVOCATIONS MC-2 A 01/02/2024''"
      by (rule subset_trans [rotated])
    with no s' show False by blast
  qed
  from th wf l s sp only
  have c: "(\<exists>e. htmlExtract (render (''MC-2'', t, ''01/02/2024'')) = Some [e] \<and> title e = pdfTitle t
                \<and> 500 \<le> length (title e))
          \<and> pdfExtract (header ?s @ CHR '' '' # render (''MC-2'', t, ''01/02/2024'')) = Some []"
    by simp
  then obtain e where "htmlExtract (render (''MC-2'', t, ''01/02/2024'')) = Some [e]"
    "title e = pdfTitle t" by blast
  with l have h: "\<exists>e. htmlExtract (render (''MC-2'', t, ''01/02/2024'')) = Some [e]
          \<and> length (title e) = 500" by simp
  from c have q: "pdfExtract (''REVOCATIONS'' @ CHR '' '' # render (''MC-2'', t, ''01/02/2024'')) = Some []"
    by simp
  from p a l b h q show ?thesis unfolding t_def by blast
qed

end
